theory Spec2Isabelle
  imports Complex_Main "HOL-Library.AList"
begin

section \<open>Numbers and rectangles\<close>

text \<open>
  The whiteboard core is written in TypeScript; every coordinate, size, velocity and scale
  is a \<^verbatim>\<open>number\<close>.  The development reads these numbers as the real numbers they
  stand for (type \<^typ>\<open>real\<close>), so comparisons and the four arithmetic operations are
  exact.  The one exception is the zoom step of the wheel handler, which is read with the
  rounding of double precision, because what is claimed of it is an equality between
  computed numbers.  Counters that the source only ever increments from zero (levels,
  capacities, list positions) are natural numbers; an index that may be \<^verbatim>\<open>-1\<close> is an
  integer.
\<close>

record Rect =
  rect_x :: real
  rect_y :: real
  rect_width :: real
  rect_height :: real

text \<open>Items stored in a quadtree carry an identifier (\<^verbatim>\<open>T extends { id: string }\<close>).\<close>

record Item =
  item_id :: string

section \<open>Spatial index: the quadtree\<close>

text \<open>
  A node of class \<^verbatim>\<open>Quadtree\<close> has the fields \<^verbatim>\<open>bounds\<close>, \<^verbatim>\<open>capacity\<close>,
  \<^verbatim>\<open>maxLevel\<close>, \<^verbatim>\<open>level\<close>, \<^verbatim>\<open>objects\<close> and \<^verbatim>\<open>nodes\<close>.  The array
  \<^verbatim>\<open>nodes\<close> is assigned in two places only: the constructor and \<^verbatim>\<open>clear\<close> make it
  empty, \<^verbatim>\<open>split\<close> stores exactly four children at the positions 0 (north-east),
  1 (north-west), 2 (south-west) and 3 (south-east).  A node is therefore either
  \<open>QLeaf\<close> (\<^verbatim>\<open>nodes.length\<close> is 0) or \<open>QNode\<close> with its four children.
\<close>

datatype 'a Quadtree =
    QLeaf (bounds: Rect) (capacity: nat) (maxLevel: nat) (level: nat)
          (objects: "('a \<times> Rect) list")
  | QNode (bounds: Rect) (capacity: nat) (maxLevel: nat) (level: nat)
          (objects: "('a \<times> Rect) list")
          (node0: "'a Quadtree") (node1: "'a Quadtree") (node2: "'a Quadtree") (node3: "'a Quadtree")

type_synonym 'a nodes4 = "'a Quadtree \<times> 'a Quadtree \<times> 'a Quadtree \<times> 'a Quadtree"

text \<open>The constructor with its default arguments: capacity 10, maximal level 5, level 0.\<close>

definition newQuadtree :: "Rect \<Rightarrow> 'a Quadtree" where
  "newQuadtree b = QLeaf b 10 5 0 []"

text \<open>
  \<^verbatim>\<open>getIndex\<close>: the quadrant a rectangle fits into strictly, or \<^verbatim>\<open>-1\<close>.  The first
  argument is \<^verbatim>\<open>this.bounds\<close>.
\<close>

definition getIndex :: "Rect \<Rightarrow> Rect \<Rightarrow> int" where
  "getIndex b rect =
    (let verticalMidpoint = rect_x b + rect_width b / 2;
         horizontalMidpoint = rect_y b + rect_height b / 2;
         topQuadrant = (rect_y rect < horizontalMidpoint \<and> rect_y rect + rect_height rect < horizontalMidpoint);
         bottomQuadrant = (rect_y rect > horizontalMidpoint)
     in if rect_x rect < verticalMidpoint \<and> rect_x rect + rect_width rect < verticalMidpoint then
          (if topQuadrant then 1 else if bottomQuadrant then 2 else -1)
        else if rect_x rect > verticalMidpoint then
          (if topQuadrant then 0 else if bottomQuadrant then 3 else -1)
        else -1)"

text \<open>
  \<^verbatim>\<open>this.nodes[index]\<close>, read and written.  The index always comes from
  \<^verbatim>\<open>getIndex\<close> and is tested against \<^verbatim>\<open>-1\<close> first, so it is one of 0, 1, 2, 3
  (lemma \<open>getIndex_range\<close> below).
\<close>

fun nodeAt :: "'a nodes4 \<Rightarrow> int \<Rightarrow> 'a Quadtree" where
  "nodeAt (n0, n1, n2, n3) i = (if i = 0 then n0 else if i = 1 then n1 else if i = 2 then n2 else n3)"

fun setNodeAt :: "'a nodes4 \<Rightarrow> int \<Rightarrow> 'a Quadtree \<Rightarrow> 'a nodes4" where
  "setNodeAt (n0, n1, n2, n3) i n =
     (if i = 0 then (n, n1, n2, n3) else if i = 1 then (n0, n, n2, n3)
      else if i = 2 then (n0, n1, n, n3) else (n0, n1, n2, n))"

text \<open>\<^verbatim>\<open>split\<close>: four empty children, one level down.\<close>

definition split :: "Rect \<Rightarrow> nat \<Rightarrow> nat \<Rightarrow> nat \<Rightarrow> 'a nodes4" where
  "split b c m l =
    (let subWidth = rect_width b / 2; subHeight = rect_height b / 2; x = rect_x b; y = rect_y b
     in (QLeaf \<lparr>rect_x = x + subWidth, rect_y = y, rect_width = subWidth, rect_height = subHeight\<rparr> c m (l + 1) [],
         QLeaf \<lparr>rect_x = x, rect_y = y, rect_width = subWidth, rect_height = subHeight\<rparr> c m (l + 1) [],
         QLeaf \<lparr>rect_x = x, rect_y = y + subHeight, rect_width = subWidth, rect_height = subHeight\<rparr> c m (l + 1) [],
         QLeaf \<lparr>rect_x = x + subWidth, rect_y = y + subHeight, rect_width = subWidth, rect_height = subHeight\<rparr> c m (l + 1) []))"

text \<open>
  \<^verbatim>\<open>insert\<close>.  A node with children hands the item to the child it fits into.
  Otherwise the item is pushed onto \<^verbatim>\<open>objects\<close>; when the bucket then holds more than
  \<^verbatim>\<open>capacity\<close> entries and the node is above \<^verbatim>\<open>maxLevel\<close>, the node splits (if it
  has not yet) and the \<^verbatim>\<open>while\<close> loop of the source, here \<open>redistribute\<close> with its
  loop counter \<open>i\<close>, moves every entry that fits a quadrant into that child.
\<close>

function insertQ :: "'a Quadtree \<Rightarrow> 'a \<Rightarrow> Rect \<Rightarrow> 'a Quadtree"
  and redistribute :: "Rect \<Rightarrow> ('a \<times> Rect) list \<Rightarrow> 'a nodes4 \<Rightarrow> nat \<Rightarrow> ('a \<times> Rect) list \<times> 'a nodes4"
where
  "insertQ (QLeaf b c m l os) item itemBounds =
     (let os' = os @ [(item, itemBounds)] in
      if length os' > c \<and> l < m then
        (case redistribute b os' (split b c m l) 0 of
           (os'', (n0, n1, n2, n3)) \<Rightarrow> QNode b c m l os'' n0 n1 n2 n3)
      else QLeaf b c m l os')"
| "insertQ (QNode b c m l os n0 n1 n2 n3) item itemBounds =
     (let index = getIndex b itemBounds in
      if index \<noteq> -1 then
        (case setNodeAt (n0, n1, n2, n3) index (insertQ (nodeAt (n0, n1, n2, n3) index) item itemBounds) of
           (n0', n1', n2', n3') \<Rightarrow> QNode b c m l os n0' n1' n2' n3')
      else
        (let os' = os @ [(item, itemBounds)] in
         if length os' > c \<and> l < m then
           (case redistribute b os' (n0, n1, n2, n3) 0 of
              (os'', (n0', n1', n2', n3')) \<Rightarrow> QNode b c m l os'' n0' n1' n2' n3')
         else QNode b c m l os' n0 n1 n2 n3))"
| "redistribute b os ns i =
     (if i < length os then
        (let obj = os ! i; index = getIndex b (snd obj) in
         if index \<noteq> -1 then
           redistribute b (take i os @ drop (Suc i) os)
             (setNodeAt ns index (insertQ (nodeAt ns index) (fst obj) (snd obj))) i
         else redistribute b os ns (Suc i))
      else (os, ns))"
  by pat_completeness auto

text \<open>\<^verbatim>\<open>intersects\<close>: strict overlap of two rectangles.\<close>

definition intersects :: "Rect \<Rightarrow> Rect \<Rightarrow> bool" where
  "intersects a b \<longleftrightarrow>
     rect_x a < rect_x b + rect_width b \<and>
     rect_x a + rect_width a > rect_x b \<and>
     rect_y a < rect_y b + rect_height b \<and>
     rect_y a + rect_height a > rect_y b"

text \<open>
  \<^verbatim>\<open>retrieve\<close> appends candidates to \<^verbatim>\<open>returnObjects\<close>: those of the one child
  the request fits into, or else those of every child whose bounds overlap the request,
  and then the whole bucket of the node itself.
\<close>

fun retrieve :: "'a Quadtree \<Rightarrow> 'a list \<Rightarrow> Rect \<Rightarrow> 'a list" where
  "retrieve (QLeaf b c m l os) returnObjects requestBounds = returnObjects @ map fst os"
| "retrieve (QNode b c m l os n0 n1 n2 n3) returnObjects requestBounds =
     (let index = getIndex b requestBounds;
          r =
            (if index \<noteq> -1 then
               (if index = 0 then retrieve n0 returnObjects requestBounds
                else if index = 1 then retrieve n1 returnObjects requestBounds
                else if index = 2 then retrieve n2 returnObjects requestBounds
                else retrieve n3 returnObjects requestBounds)
             else
               foldl (\<lambda>acc n. if intersects (bounds n) requestBounds
                                then retrieve n acc requestBounds else acc)
                 returnObjects [n0, n1, n2, n3])
      in r @ map fst os)"

text \<open>\<^verbatim>\<open>getAll\<close>: the items of a node followed by those of its children.\<close>

fun getAll :: "'a Quadtree \<Rightarrow> 'a list" where
  "getAll (QLeaf b c m l os) = map fst os"
| "getAll (QNode b c m l os n0 n1 n2 n3) =
     map fst os @ getAll n0 @ getAll n1 @ getAll n2 @ getAll n3"

text \<open>
  \<^verbatim>\<open>Array.prototype.findIndex\<close> (the position of the first element that satisfies the
  test, \<^verbatim>\<open>-1\<close> if there is none) and \<^verbatim>\<open>splice(i, 1)\<close>.
\<close>

fun findIndexFrom :: "('a \<Rightarrow> bool) \<Rightarrow> int \<Rightarrow> 'a list \<Rightarrow> int" where
  "findIndexFrom p i [] = -1"
| "findIndexFrom p i (x # xs) = (if p x then i else findIndexFrom p (i + 1) xs)"

definition findIndex :: "('a \<Rightarrow> bool) \<Rightarrow> 'a list \<Rightarrow> int" where
  "findIndex p xs = findIndexFrom p 0 xs"

definition splice1 :: "'a list \<Rightarrow> nat \<Rightarrow> 'a list" where
  "splice1 xs i = take i xs @ drop (Suc i) xs"

text \<open>
  \<^verbatim>\<open>removeById\<close> searches the bucket of the node, then its children in order, removes
  the first entry with the identifier and reports whether it found one.
\<close>

fun removeById :: "('z Item_scheme) Quadtree \<Rightarrow> string \<Rightarrow> bool \<times> ('z Item_scheme) Quadtree" where
  "removeById (QLeaf b c m l os) ident =
     (let idx = findIndex (\<lambda>obj. item_id (fst obj) = ident) os in
      if idx \<noteq> -1 then (True, QLeaf b c m l (splice1 os (nat idx)))
      else (False, QLeaf b c m l os))"
| "removeById (QNode b c m l os n0 n1 n2 n3) ident =
     (let idx = findIndex (\<lambda>obj. item_id (fst obj) = ident) os in
      if idx \<noteq> -1 then (True, QNode b c m l (splice1 os (nat idx)) n0 n1 n2 n3)
      else
        (case removeById n0 ident of
           (True, n0') \<Rightarrow> (True, QNode b c m l os n0' n1 n2 n3)
         | (False, n0') \<Rightarrow>
        (case removeById n1 ident of
           (True, n1') \<Rightarrow> (True, QNode b c m l os n0' n1' n2 n3)
         | (False, n1') \<Rightarrow>
        (case removeById n2 ident of
           (True, n2') \<Rightarrow> (True, QNode b c m l os n0' n1' n2' n3)
         | (False, n2') \<Rightarrow>
        (case removeById n3 ident of
           (found, n3') \<Rightarrow> (found, QNode b c m l os n0' n1' n2' n3'))))))"

definition remove :: "('z Item_scheme) Quadtree \<Rightarrow> string \<Rightarrow> ('z Item_scheme) Quadtree" where
  "remove t itemId = snd (removeById t itemId)"

text \<open>\<^verbatim>\<open>clear\<close> empties the bucket and drops the children.\<close>

fun clear :: "'a Quadtree \<Rightarrow> 'a Quadtree" where
  "clear (QLeaf b c m l os) = QLeaf b c m l []"
| "clear (QNode b c m l os n0 n1 n2 n3) = QLeaf b c m l []"

subsection \<open>Termination of insertion\<close>

text \<open>
  Insertion recurses into children that the same call may just have created or enlarged.
  The number of levels that a node and its descendants may still gain bounds the depth of
  the recursion.
\<close>

fun depthLeft :: "'a Quadtree \<Rightarrow> nat" where
  "depthLeft (QLeaf b c m l os) = m - l"
| "depthLeft (QNode b c m l os n0 n1 n2 n3) =
     max (m - l) (Suc (max (max (depthLeft n0) (depthLeft n1)) (max (depthLeft n2) (depthLeft n3))))"

fun depthLeft4 :: "'a nodes4 \<Rightarrow> nat" where
  "depthLeft4 (n0, n1, n2, n3) = Suc (max (max (depthLeft n0) (depthLeft n1)) (max (depthLeft n2) (depthLeft n3)))"

lemma depthLeft_nodeAt: "depthLeft (nodeAt ns i) < depthLeft4 ns"
  by (cases ns) (auto simp: less_Suc_eq_le le_max_iff_disj)

lemma depthLeft4_setNodeAt:
  "depthLeft n \<le> depthLeft (nodeAt ns i) \<Longrightarrow> depthLeft4 (setNodeAt ns i n) \<le> depthLeft4 ns"
  by (cases ns) (simp split: if_splits, linarith+)

lemma depthLeft4_split: "l < m \<Longrightarrow> depthLeft4 (split b c m l) = m - l"
  by (simp add: split_def Let_def)

lemma depthLeft_QNode: "depthLeft (QNode b c m l os n0 n1 n2 n3) = max (m - l) (depthLeft4 (n0, n1, n2, n3))"
  by simp

lemma depthLeft_dom:
  "insertQ_redistribute_dom (Inl (t :: 'a Quadtree, item, ib)) \<Longrightarrow> depthLeft (insertQ t item ib) \<le> depthLeft t"
  "insertQ_redistribute_dom (Inr (b, os, ns :: 'a nodes4, i)) \<Longrightarrow> depthLeft4 (snd (redistribute b os ns i)) \<le> depthLeft4 ns"
proof (induct t item ib and b os ns i rule: insertQ_redistribute.pinduct)
  case (1 b c m l os item itemBounds)
  show ?case
  proof (cases "length (os @ [(item, itemBounds)]) > c \<and> l < m")
    case False
    with 1(1) show ?thesis by (auto simp: insertQ.psimps Let_def)
  next
    case True
    obtain os'' ns' where r: "redistribute b (os @ [(item, itemBounds)]) (split b c m l) 0 = (os'', ns')"
      by (cases "redistribute b (os @ [(item, itemBounds)]) (split b c m l) 0") auto
    obtain n0 n1 n2 n3 where ns': "ns' = (n0, n1, n2, n3)" by (cases ns') auto
    from 1(2)[OF refl True] r True have "depthLeft4 ns' \<le> m - l" by (simp add: depthLeft4_split)
    moreover have "insertQ (QLeaf b c m l os) item itemBounds = QNode b c m l os'' n0 n1 n2 n3"
      using 1(1) True r ns' by (simp add: insertQ.psimps Let_def)
    ultimately show ?thesis unfolding ns' by (simp only: depthLeft_QNode depthLeft.simps(1))
  qed
next
  case (2 b c m l os n0 n1 n2 n3 item itemBounds)
  let ?ns = "(n0, n1, n2, n3)"
  show ?case
  proof (cases "getIndex b itemBounds = -1")
    case True
    show ?thesis
    proof (cases "length (os @ [(item, itemBounds)]) > c \<and> l < m")
      case False
      with 2(1) True show ?thesis by (auto simp: insertQ.psimps Let_def)
    next
      case lm: True
      obtain os'' ns' where r: "redistribute b (os @ [(item, itemBounds)]) ?ns 0 = (os'', ns')"
        by (cases "redistribute b (os @ [(item, itemBounds)]) ?ns 0") auto
      obtain m0 m1 m2 m3 where ns': "ns' = (m0, m1, m2, m3)" by (cases ns') auto
      from 2(3)[OF refl _ refl lm] True r have le: "depthLeft4 ns' \<le> depthLeft4 ?ns" by simp
      have "insertQ (QNode b c m l os n0 n1 n2 n3) item itemBounds = QNode b c m l os'' m0 m1 m2 m3"
        using 2(1) True lm r ns' by (simp add: insertQ.psimps Let_def)
      with le show ?thesis unfolding ns' by (simp only: depthLeft_QNode)
    qed
  next
    case False
    let ?k = "getIndex b itemBounds"
    from 2(2)[OF refl False] have "depthLeft (insertQ (nodeAt ?ns ?k) item itemBounds) \<le> depthLeft (nodeAt ?ns ?k)" .
    from depthLeft4_setNodeAt[OF this] have le: "depthLeft4 (setNodeAt ?ns ?k (insertQ (nodeAt ?ns ?k) item itemBounds)) \<le> depthLeft4 ?ns" .
    obtain m0 m1 m2 m3 where ns': "setNodeAt ?ns ?k (insertQ (nodeAt ?ns ?k) item itemBounds) = (m0, m1, m2, m3)"
      by (cases "setNodeAt ?ns ?k (insertQ (nodeAt ?ns ?k) item itemBounds)") auto
    have "insertQ (QNode b c m l os n0 n1 n2 n3) item itemBounds = QNode b c m l os m0 m1 m2 m3"
      using 2(1) False ns' by (simp add: insertQ.psimps Let_def del: setNodeAt.simps nodeAt.simps)
    with le show ?thesis unfolding ns' by (simp only: depthLeft_QNode)
  qed
next
  case (3 b os ns i)
  show ?case
  proof (cases "i < length os")
    case False
    with 3(1) show ?thesis by (simp add: redistribute.psimps)
  next
    case True
    show ?thesis
    proof (cases "getIndex b (snd (os ! i)) = -1")
      case m1: True
      from 3(4)[OF True refl refl] m1 have "depthLeft4 (snd (redistribute b os ns (Suc i))) \<le> depthLeft4 ns" by simp
      with 3(1) True m1 show ?thesis by (simp add: redistribute.psimps Let_def)
    next
      case False
      let ?k = "getIndex b (snd (os ! i))"
      from 3(2)[OF True refl refl False] have "depthLeft (insertQ (nodeAt ns ?k) (fst (os ! i)) (snd (os ! i)))
         \<le> depthLeft (nodeAt ns ?k)" .
      from depthLeft4_setNodeAt[OF this] have a: "depthLeft4 (setNodeAt ns ?k (insertQ (nodeAt ns ?k) (fst (os ! i)) (snd (os ! i)))) \<le> depthLeft4 ns" .
      from 3(3)[OF True refl refl False] have b: "depthLeft4 (snd (redistribute b (take i os @ drop (Suc i) os)
             (setNodeAt ns ?k (insertQ (nodeAt ns ?k) (fst (os ! i)) (snd (os ! i)))) i)) \<le> depthLeft4 (setNodeAt ns ?k (insertQ (nodeAt ns ?k) (fst (os ! i)) (snd (os ! i))))" .
      have "redistribute b os ns i = redistribute b (take i os @ drop (Suc i) os)
             (setNodeAt ns ?k (insertQ (nodeAt ns ?k) (fst (os ! i)) (snd (os ! i)))) i"
        using 3(1) True False by (simp add: redistribute.psimps Let_def)
      with a b show ?thesis by simp
    qed
  qed
qed

termination insertQ
proof (relation "inv_image (less_than <*lex*> less_than <*lex*> less_than)
        (\<lambda>a. case a of Inl (t, _, _) \<Rightarrow> (depthLeft t, 1::nat, 0::nat)
                      | Inr (_, os, ns, i) \<Rightarrow> (depthLeft4 ns, 0, length os - i))", goal_cases)
  case 1
  show ?case by (intro wf_inv_image wf_lex_prod wf_less_than)
next
  case (2 b c m l os item itemBounds x)
  then show ?case by (simp add: depthLeft4_split)
next
  case (3 b c m l os n0 n1 n2 n3 item itemBounds x)
  have "depthLeft (nodeAt (n0, n1, n2, n3) x) < depthLeft4 (n0, n1, n2, n3)" by (rule depthLeft_nodeAt)
  then show ?case by (simp del: nodeAt.simps) 
next
  case (4 b c m l os n0 n1 n2 n3 item itemBounds x xa)
  then show ?case by (simp add: less_max_iff_disj max_def)
next
  case (5 b os ns i x xa)
  then show ?case using depthLeft_nodeAt[of ns xa] by simp
next
  case (6 b os ns i x xa)
  from depthLeft_dom(1)[OF 6(5)] have "depthLeft4 (setNodeAt ns xa (insertQ (nodeAt ns xa) (fst x) (snd x))) \<le> depthLeft4 ns"
    by (rule depthLeft4_setNodeAt)
  with 6(1) show ?case by auto
next
  case (7 b os ns i x xa)
  then show ?case by auto
qed

declare redistribute.simps [simp del]

subsection \<open>What the index holds, and where\<close>

text \<open>
  \<open>entries\<close> lists every entry stored in a tree, \<open>inside b r\<close> says that rectangle
  \<open>r\<close> lies within \<open>b\<close>, and \<open>quadrant b k\<close> is the rectangle that \<^verbatim>\<open>split\<close>
  gives to child \<open>k\<close>.  A tree is \<open>wellPlaced\<close> when every node has the bounds its
  parent gave it and every entry at or below a node lies inside that node.
\<close>

fun entries :: "'a Quadtree \<Rightarrow> ('a \<times> Rect) list" where
  "entries (QLeaf b c m l os) = os"
| "entries (QNode b c m l os n0 n1 n2 n3) = os @ entries n0 @ entries n1 @ entries n2 @ entries n3"

fun entries4 :: "'a nodes4 \<Rightarrow> ('a \<times> Rect) list" where
  "entries4 (n0, n1, n2, n3) = entries n0 @ entries n1 @ entries n2 @ entries n3"

definition inside :: "Rect \<Rightarrow> Rect \<Rightarrow> bool" where
  "inside b r \<longleftrightarrow>
     rect_x b \<le> rect_x r \<and> rect_x r + rect_width r \<le> rect_x b + rect_width b \<and>
     rect_y b \<le> rect_y r \<and> rect_y r + rect_height r \<le> rect_y b + rect_height b"

definition quadrant :: "Rect \<Rightarrow> int \<Rightarrow> Rect" where
  "quadrant b k =
     \<lparr>rect_x = (if k = 0 \<or> k = 3 then rect_x b + rect_width b / 2 else rect_x b),
      rect_y = (if k = 2 \<or> k = 3 then rect_y b + rect_height b / 2 else rect_y b),
      rect_width = rect_width b / 2, rect_height = rect_height b / 2\<rparr>"

fun wellPlaced :: "'a Quadtree \<Rightarrow> bool" where
  "wellPlaced (QLeaf b c m l os) = (\<forall>e \<in> set os. inside b (snd e))"
| "wellPlaced (QNode b c m l os n0 n1 n2 n3) =
     ((\<forall>e \<in> set (os @ entries n0 @ entries n1 @ entries n2 @ entries n3). inside b (snd e)) \<and>
      bounds n0 = quadrant b 0 \<and> bounds n1 = quadrant b 1 \<and>
      bounds n2 = quadrant b 2 \<and> bounds n3 = quadrant b 3 \<and>
      wellPlaced n0 \<and> wellPlaced n1 \<and> wellPlaced n2 \<and> wellPlaced n3)"

fun wellPlaced4 :: "Rect \<Rightarrow> 'a nodes4 \<Rightarrow> bool" where
  "wellPlaced4 b (n0, n1, n2, n3) =
     (bounds n0 = quadrant b 0 \<and> bounds n1 = quadrant b 1 \<and>
      bounds n2 = quadrant b 2 \<and> bounds n3 = quadrant b 3 \<and>
      wellPlaced n0 \<and> wellPlaced n1 \<and> wellPlaced n2 \<and> wellPlaced n3)"

definition insertAll :: "'a Quadtree \<Rightarrow> ('a \<times> Rect) list \<Rightarrow> 'a Quadtree" where
  "insertAll t items = foldl (\<lambda>t e. insertQ t (fst e) (snd e)) t items"

subsection \<open>Insertion keeps entries and placement\<close>

lemma getIndex_range: "getIndex b r \<in> {-1, 0, 1, 2, 3}"
  by (simp add: getIndex_def Let_def)

lemma getIndex_inside_quadrant:
  "inside b r \<Longrightarrow> getIndex b r = k \<Longrightarrow> k \<noteq> -1 \<Longrightarrow> inside (quadrant b k) r"
  by (auto simp: getIndex_def Let_def inside_def quadrant_def split: if_splits)

lemma getIndex_prunes:
  "getIndex b q = k \<Longrightarrow> k \<noteq> -1 \<Longrightarrow> j \<in> {0, 1, 2, 3} \<Longrightarrow> j \<noteq> k \<Longrightarrow>
   inside (quadrant b j) r \<Longrightarrow> \<not> intersects r q"
  by (auto simp: getIndex_def Let_def inside_def quadrant_def intersects_def split: if_splits)

lemma inside_intersects:
  "inside b r \<Longrightarrow> intersects r q \<Longrightarrow> intersects b q"
  by (auto simp: inside_def intersects_def)

lemma bounds_insertQ [simp]: "bounds (insertQ t item r) = bounds t"
  by (cases t) (auto simp: Let_def split: prod.splits)

lemma nodeAt_cases:
  "k \<in> {0, 1, 2, 3} \<Longrightarrow> nodeAt (n0, n1, n2, n3) k = (if k = 0 then n0 else if k = 1 then n1 else if k = 2 then n2 else n3)"
  by simp

lemma entries_insertQ_redistribute:
  "set (entries (insertQ (t :: 'a Quadtree) item r)) = insert (item, r) (set (entries t))"
  "set (fst (redistribute b os (ns :: 'a nodes4) i)) \<union> set (entries4 (snd (redistribute b os ns i)))
     = set os \<union> set (entries4 ns)"
proof (induct t item r and b os ns i rule: insertQ_redistribute.induct)
  case (1 b c m l os item itemBounds)
  show ?case
  proof (cases "length (os @ [(item, itemBounds)]) > c \<and> l < m")
    case False
    then show ?thesis by (auto simp: Let_def)
  next
    case True
    obtain os'' n0 n1 n2 n3 where r: "redistribute b (os @ [(item, itemBounds)]) (split b c m l) 0 = (os'', n0, n1, n2, n3)"
      by (metis prod_cases5)
    from 1[OF refl True] r have "set os'' \<union> set (entries4 (n0, n1, n2, n3)) = set (os @ [(item, itemBounds)]) \<union> set (entries4 (split b c m l :: 'a nodes4))"
      by simp
    with True r show ?thesis by (simp add: Let_def split_def Un_assoc)
  qed
next
  case (2 b c m l os n0 n1 n2 n3 item itemBounds)
  let ?k = "getIndex b itemBounds"
  show ?case
  proof (cases "?k = -1")
    case True
    show ?thesis
    proof (cases "length (os @ [(item, itemBounds)]) > c \<and> l < m")
      case False
      with True show ?thesis by (auto simp: Let_def)
    next
      case lm: True
      obtain os'' m0 m1 m2 m3 where r: "redistribute b (os @ [(item, itemBounds)]) (n0, n1, n2, n3) 0 = (os'', m0, m1, m2, m3)"
        by (metis prod_cases5)
      from 2(2)[OF refl _ refl lm] True r
      have "set os'' \<union> set (entries4 (m0, m1, m2, m3)) = set (os @ [(item, itemBounds)]) \<union> set (entries4 (n0, n1, n2, n3))"
        by simp
      with True lm r show ?thesis by (simp add: Let_def Un_assoc)
    qed
  next
    case False
    have k: "?k \<in> {0, 1, 2, 3}" using getIndex_range[of b itemBounds] False by auto
    from 2(1)[OF refl False]
    have ih: "set (entries (insertQ (nodeAt (n0, n1, n2, n3) ?k) item itemBounds))
        = insert (item, itemBounds) (set (entries (nodeAt (n0, n1, n2, n3) ?k)))" .
    from k ih False show ?thesis
      by (auto simp: Let_def)
  qed
next
  case (3 b os ns i)
  show ?case
  proof (cases "i < length os")
    case False
    then show ?thesis by (subst (1 2) redistribute.simps) simp
  next
    case True
    let ?k = "getIndex b (snd (os ! i))"
    show ?thesis
    proof (cases "?k = -1")
      case m1: True
      have "redistribute b os ns i = redistribute b os ns (Suc i)"
        using True m1 by (subst redistribute.simps) (simp add: Let_def)
      with 3(3)[OF True refl refl] m1 show ?thesis by simp
    next
      case False
      have k: "?k \<in> {0, 1, 2, 3}" using getIndex_range[of b "snd (os ! i)"] False by auto
      let ?n = "insertQ (nodeAt ns ?k) (fst (os ! i)) (snd (os ! i))"
      from 3(1)[OF True refl refl False]
      have a: "set (entries ?n) = insert (os ! i) (set (entries (nodeAt ns ?k)))" by simp
      from 3(2)[OF True refl refl False]
      have b: "set (fst (redistribute b (take i os @ drop (Suc i) os) (setNodeAt ns ?k ?n) i))
           \<union> set (entries4 (snd (redistribute b (take i os @ drop (Suc i) os) (setNodeAt ns ?k ?n) i)))
          = set (take i os @ drop (Suc i) os) \<union> set (entries4 (setNodeAt ns ?k ?n))" .
      have c: "set (entries4 (setNodeAt ns ?k ?n)) = insert (os ! i) (set (entries4 ns))"
        using a k by (cases ns) auto
      have d: "set (take i os @ drop (Suc i) os) \<union> {os ! i} = set os"
        using True by (metis Un_insert_right append_take_drop_id Cons_nth_drop_Suc list.simps(15) set_append sup_bot.right_neutral)
      have e: "redistribute b os ns i = redistribute b (take i os @ drop (Suc i) os) (setNodeAt ns ?k ?n) i"
        using True False by (subst redistribute.simps) (simp add: Let_def)
      show ?thesis unfolding e b c using d by auto
    qed
  qed
qed

lemma wellPlaced_entries_inside:
  "wellPlaced t \<Longrightarrow> e \<in> set (entries t) \<Longrightarrow> inside (bounds t) (snd e)"
  by (cases t) auto

lemma wellPlaced4_split: "wellPlaced4 b (split b c m l)"
  by (simp add: split_def Let_def quadrant_def)

lemma entries4_split [simp]: "entries4 (split b c m l) = []"
  by (simp add: split_def Let_def)

lemma wellPlaced_QNode:
  "wellPlaced (QNode b c m l os n0 n1 n2 n3) \<longleftrightarrow>
     (\<forall>e \<in> set os \<union> set (entries4 (n0, n1, n2, n3)). inside b (snd e)) \<and> wellPlaced4 b (n0, n1, n2, n3)"
  by auto

lemma wellPlaced4_nodeAt:
  "wellPlaced4 b ns \<Longrightarrow> k \<in> {0, 1, 2, 3} \<Longrightarrow> wellPlaced (nodeAt ns k) \<and> bounds (nodeAt ns k) = quadrant b k"
  by (cases ns) auto

lemma wellPlaced4_setNodeAt:
  "wellPlaced4 b ns \<Longrightarrow> k \<in> {0, 1, 2, 3} \<Longrightarrow> wellPlaced n \<Longrightarrow> bounds n = quadrant b k \<Longrightarrow>
   wellPlaced4 b (setNodeAt ns k n)"
  by (cases ns) auto

lemma entries4_setNodeAt:
  "k \<in> {0, 1, 2, 3} \<Longrightarrow> set (entries n) = insert e (set (entries (nodeAt ns k))) \<Longrightarrow>
   set (entries4 (setNodeAt ns k n)) = insert e (set (entries4 ns))"
  by (cases ns) auto

lemma redistribute_unfold_move:
  "i < length os \<Longrightarrow> getIndex b (snd (os ! i)) \<noteq> -1 \<Longrightarrow>
   redistribute b os ns i =
     redistribute b (take i os @ drop (Suc i) os)
       (setNodeAt ns (getIndex b (snd (os ! i)))
          (insertQ (nodeAt ns (getIndex b (snd (os ! i)))) (fst (os ! i)) (snd (os ! i)))) i"
  by (subst redistribute.simps) (simp add: Let_def)

lemma redistribute_unfold_keep:
  "i < length os \<Longrightarrow> getIndex b (snd (os ! i)) = -1 \<Longrightarrow>
   redistribute b os ns i = redistribute b os ns (Suc i)"
  by (subst redistribute.simps) (simp add: Let_def)

lemma redistribute_unfold_done:
  "\<not> i < length os \<Longrightarrow> redistribute b os ns i = (os, ns)"
  by (subst redistribute.simps) simp

lemma set_take_drop_subset: "set (take i os @ drop (Suc i) os) \<subseteq> set os"
  by (auto dest: in_set_takeD in_set_dropD)

lemma wellPlaced_insertQ_redistribute:
  "wellPlaced (t :: 'a Quadtree) \<Longrightarrow> inside (bounds t) r \<Longrightarrow> wellPlaced (insertQ t item r)"
  "(\<forall>e \<in> set os \<union> set (entries4 (ns :: 'a nodes4)). inside b (snd e)) \<Longrightarrow> wellPlaced4 b ns \<Longrightarrow>
     wellPlaced4 b (snd (redistribute b os ns i))"
proof (induct t item r and b os ns i rule: insertQ_redistribute.induct)
  case (1 b c m l os item itemBounds)
  show ?case
  proof (cases "length (os @ [(item, itemBounds)]) > c \<and> l < m")
    case False
    with 1(2,3) show ?thesis by (auto simp: Let_def)
  next
    case True
    let ?os = "os @ [(item, itemBounds)]"
    obtain os'' n0 n1 n2 n3 where r: "redistribute b ?os (split b c m l) 0 = (os'', n0, n1, n2, n3)"
      by (metis prod_cases5)
    have ins: "\<forall>e \<in> set ?os \<union> set (entries4 (split b c m l :: 'a nodes4)). inside b (snd e)"
      using 1(2,3) by auto
    from 1(1)[OF refl True ins wellPlaced4_split] r have w4: "wellPlaced4 b (n0, n1, n2, n3)" by simp
    from entries_insertQ_redistribute(2)[of b ?os "split b c m l :: 'a nodes4" 0] r
    have "set os'' \<union> set (entries4 (n0, n1, n2, n3)) = set ?os" by simp
    with ins have "\<forall>e \<in> set os'' \<union> set (entries4 (n0, n1, n2, n3)). inside b (snd e)" by auto
    with w4 have "wellPlaced (QNode b c m l os'' n0 n1 n2 n3)" unfolding wellPlaced_QNode by blast
    with True r show ?thesis by (simp add: Let_def)
  qed
next
  case (2 b c m l os n0 n1 n2 n3 item itemBounds)
  let ?k = "getIndex b itemBounds"
  let ?ns = "(n0, n1, n2, n3)"
  from 2(3) have ins0: "\<forall>e \<in> set os \<union> set (entries4 ?ns). inside b (snd e)" and w40: "wellPlaced4 b ?ns"
    unfolding wellPlaced_QNode by blast+
  from 2(4) have rin: "inside b itemBounds" by simp
  show ?case
  proof (cases "?k = -1")
    case True
    let ?os = "os @ [(item, itemBounds)]"
    have ins: "\<forall>e \<in> set ?os \<union> set (entries4 ?ns). inside b (snd e)" using ins0 rin by auto
    show ?thesis
    proof (cases "length ?os > c \<and> l < m")
      case False
      have "wellPlaced (QNode b c m l ?os n0 n1 n2 n3)" unfolding wellPlaced_QNode using ins w40 by blast
      moreover have "insertQ (QNode b c m l os n0 n1 n2 n3) item itemBounds = QNode b c m l ?os n0 n1 n2 n3"
        using True False by (auto simp: Let_def)
      ultimately show ?thesis by simp
    next
      case lm: True
      obtain os'' m0 m1 m2 m3 where r: "redistribute b ?os ?ns 0 = (os'', m0, m1, m2, m3)"
        by (metis prod_cases5)
      from 2(2)[OF refl _ refl lm ins w40] True r have w4: "wellPlaced4 b (m0, m1, m2, m3)" by simp
      from entries_insertQ_redistribute(2)[of b ?os ?ns 0] r
      have "set os'' \<union> set (entries4 (m0, m1, m2, m3)) = set ?os \<union> set (entries4 ?ns)" by simp
      with ins have "\<forall>e \<in> set os'' \<union> set (entries4 (m0, m1, m2, m3)). inside b (snd e)" by blast
      with w4 have "wellPlaced (QNode b c m l os'' m0 m1 m2 m3)" unfolding wellPlaced_QNode by blast
      with True lm r show ?thesis by (simp add: Let_def)
    qed
  next
    case False
    have k: "?k \<in> {0, 1, 2, 3}" using getIndex_range[of b itemBounds] False by auto
    let ?n = "insertQ (nodeAt ?ns ?k) item itemBounds"
    from wellPlaced4_nodeAt[OF w40 k] have wk: "wellPlaced (nodeAt ?ns ?k)" and bk: "bounds (nodeAt ?ns ?k) = quadrant b ?k"
      by blast+
    have "inside (quadrant b ?k) itemBounds" using getIndex_inside_quadrant[OF rin refl False] .
    with 2(1)[OF refl False wk] bk have wn: "wellPlaced ?n" by simp
    have bn: "bounds ?n = quadrant b ?k" using bk by simp
    have w4: "wellPlaced4 b (setNodeAt ?ns ?k ?n)" by (rule wellPlaced4_setNodeAt[OF w40 k wn bn])
    have "set (entries4 (setNodeAt ?ns ?k ?n)) = insert (item, itemBounds) (set (entries4 ?ns))"
      by (rule entries4_setNodeAt[OF k]) (rule entries_insertQ_redistribute(1))
    with ins0 rin have ins: "\<forall>e \<in> set os \<union> set (entries4 (setNodeAt ?ns ?k ?n)). inside b (snd e)" by auto
    obtain m0 m1 m2 m3 where s: "setNodeAt ?ns ?k ?n = (m0, m1, m2, m3)" by (metis prod_cases4)
    from w4 ins have "wellPlaced (QNode b c m l os m0 m1 m2 m3)" unfolding wellPlaced_QNode s by blast
    moreover have "insertQ (QNode b c m l os n0 n1 n2 n3) item itemBounds = QNode b c m l os m0 m1 m2 m3"
      using False s by (simp add: Let_def del: setNodeAt.simps nodeAt.simps)
    ultimately show ?thesis by simp
  qed
next
  case (3 b os ns i)
  show ?case
  proof (cases "i < length os")
    case False
    with 3(5) show ?thesis by (simp add: redistribute_unfold_done)
  next
    case True
    let ?k = "getIndex b (snd (os ! i))"
    show ?thesis
    proof (cases "?k = -1")
      case m1: True
      from 3(3)[OF True refl refl _ 3(4) 3(5)] m1 show ?thesis
        by (simp add: redistribute_unfold_keep[OF True m1])
    next
      case False
      have k: "?k \<in> {0, 1, 2, 3}" using getIndex_range[of b "snd (os ! i)"] False by auto
      let ?n = "insertQ (nodeAt ns ?k) (fst (os ! i)) (snd (os ! i))"
      have oin: "inside b (snd (os ! i))" using 3(4) True by auto
      from wellPlaced4_nodeAt[OF 3(5) k] have wk: "wellPlaced (nodeAt ns ?k)" and bk: "bounds (nodeAt ns ?k) = quadrant b ?k"
        by blast+
      have "inside (quadrant b ?k) (snd (os ! i))" using getIndex_inside_quadrant[OF oin refl False] .
      with 3(1)[OF True refl refl False wk] bk have wn: "wellPlaced ?n" by simp
      have bn: "bounds ?n = quadrant b ?k" using bk by simp
      have w4: "wellPlaced4 b (setNodeAt ns ?k ?n)" by (rule wellPlaced4_setNodeAt[OF 3(5) k wn bn])
      have "set (entries4 (setNodeAt ns ?k ?n)) = insert (os ! i) (set (entries4 ns))"
        by (rule entries4_setNodeAt[OF k]) (simp add: entries_insertQ_redistribute(1))
      with 3(4) oin set_take_drop_subset[of i os]
      have ins: "\<forall>e \<in> set (take i os @ drop (Suc i) os) \<union> set (entries4 (setNodeAt ns ?k ?n)). inside b (snd e)"
        by auto
      from 3(2)[OF True refl refl False ins w4] show ?thesis
        by (simp add: redistribute_unfold_move[OF True False])
    qed
  qed
qed

lemma foldl_retrieve_append:
  assumes "\<And>n acc. n \<in> set ns \<Longrightarrow> retrieve n acc q = acc @ retrieve n [] q"
  shows "foldl (\<lambda>acc n. if intersects (bounds n) q then retrieve n acc q else acc) a ns
         = a @ foldl (\<lambda>acc n. if intersects (bounds n) q then retrieve n acc q else acc) [] ns"
  using assms
proof (induction ns arbitrary: a rule: rev_induct)
  case Nil
  show ?case by simp
next
  case (snoc n ns)
  let ?f = "\<lambda>acc n. if intersects (bounds n) q then retrieve n acc q else acc"
  have h: "retrieve n x q = x @ retrieve n [] q" for x by (rule snoc.prems) simp
  have ih: "foldl ?f a ns = a @ foldl ?f [] ns" by (rule snoc.IH, rule snoc.prems) simp
  show ?case
  proof (cases "intersects (bounds n) q")
    case True
    have "foldl ?f a (ns @ [n]) = retrieve n (foldl ?f a ns) q" using True by simp
    also have "\<dots> = (a @ foldl ?f [] ns) @ retrieve n [] q" using h[of "foldl ?f a ns"] ih by simp
    also have "\<dots> = a @ retrieve n (foldl ?f [] ns) q" using h[of "foldl ?f [] ns"] by simp
    also have "\<dots> = a @ foldl ?f [] (ns @ [n])" using True by simp
    finally show ?thesis .
  next
    case False
    then show ?thesis using ih by simp
  qed
qed

lemma retrieve_append: "retrieve t acc q = acc @ retrieve t [] q"
proof (induction t arbitrary: acc)
  case (QLeaf b c m l os)
  show ?case by simp
next
  case (QNode b c m l os n0 n1 n2 n3)
  let ?f = "\<lambda>acc n. if intersects (bounds n) q then retrieve n acc q else acc"
  have ns: "retrieve n acc q = acc @ retrieve n [] q" if "n \<in> set [n0, n1, n2, n3]" for n acc
  proof -
    from that consider "n = n0" | "n = n1" | "n = n2" | "n = n3" by auto
    then show ?thesis by cases (simp_all only: QNode.IH[of acc])
  qed
  have f: "foldl ?f acc [n0, n1, n2, n3] = acc @ foldl ?f [] [n0, n1, n2, n3]"
    by (rule foldl_retrieve_append[OF ns])
  show ?case
  proof (cases "getIndex b q = -1")
    case True
    have "retrieve (QNode b c m l os n0 n1 n2 n3) acc q = foldl ?f acc [n0, n1, n2, n3] @ map fst os"
      using True by (simp add: Let_def)
    also have "\<dots> = acc @ (foldl ?f [] [n0, n1, n2, n3] @ map fst os)" by (simp only: f append_assoc)
    also have "\<dots> = acc @ retrieve (QNode b c m l os n0 n1 n2 n3) [] q"
      using True by (simp add: Let_def)
    finally show ?thesis .
  next
    case False
    then show ?thesis
      using QNode.IH(1)[of acc] QNode.IH(2)[of acc] QNode.IH(3)[of acc] QNode.IH(4)[of acc]
      by (simp add: Let_def)
  qed
qed

lemma retrieve_set: "set (retrieve t acc q) = set acc \<union> set (retrieve t [] q)"
  by (subst retrieve_append) simp

lemma foldl_retrieve_set:
  "set (foldl (\<lambda>acc n. if intersects (bounds n) q then retrieve n acc q else acc) a ns)
     = set a \<union> (\<Union>n \<in> {n \<in> set ns. intersects (bounds n) q}. set (retrieve n [] q))"
proof (induction ns rule: rev_induct)
  case Nil
  show ?case by simp
next
  case (snoc n ns)
  show ?case
  proof (cases "intersects (bounds n) q")
    case True
    then show ?thesis
      using snoc.IH retrieve_set[of n "foldl (\<lambda>acc n. if intersects (bounds n) q then retrieve n acc q else acc) a ns" q]
      by auto
  next
    case False
    then show ?thesis using snoc.IH by auto
  qed
qed

lemma retrieve_QNode:
  "retrieve (QNode b c m l os n0 n1 n2 n3) acc q =
     (if getIndex b q \<noteq> -1 then retrieve (nodeAt (n0, n1, n2, n3) (getIndex b q)) acc q
      else foldl (\<lambda>acc n. if intersects (bounds n) q then retrieve n acc q else acc) acc [n0, n1, n2, n3])
     @ map fst os"
  using getIndex_range[of b q] by (simp add: Let_def del: foldl_Cons)

lemma entries_QNode_cases:
  assumes "e \<in> set (entries (QNode b c m l os n0 n1 n2 n3))"
  obtains "e \<in> set os"
  | j where "j \<in> {0, 1, 2, 3::int}" and "e \<in> set (entries (nodeAt (n0, n1, n2, n3) j))"
proof -
  from assms consider "e \<in> set os" | "e \<in> set (entries n0)" | "e \<in> set (entries n1)"
    | "e \<in> set (entries n2)" | "e \<in> set (entries n3)" by auto
  then show thesis
  proof cases
    case 1 then show ?thesis by (rule that(1))
  next
    case 2 then show ?thesis using that(2)[of 0] by simp
  next
    case 3 then show ?thesis using that(2)[of 1] by simp
  next
    case 4 then show ?thesis using that(2)[of 2] by simp
  next
    case 5 then show ?thesis using that(2)[of 3] by simp
  qed
qed

lemma nodeAt_in_set: "nodeAt (n0, n1, n2, n3) j \<in> set [n0, n1, n2, n3]"
  by simp

lemma retrieve_complete:
  "wellPlaced t \<Longrightarrow> (it, r) \<in> set (entries t) \<Longrightarrow> intersects r q \<Longrightarrow> it \<in> set (retrieve t [] q)"
proof (induction t)
  case (QLeaf b c m l os)
  then have "(it, r) \<in> set os" by simp
  then have "it \<in> fst ` set os" by force
  then show ?case by simp
next
  case (QNode b c m l os n0 n1 n2 n3)
  let ?ns = "[n0, n1, n2, n3]"
  let ?f = "\<lambda>acc n. if intersects (bounds n) q then retrieve n acc q else acc"
  from QNode.prems(2) show ?case
  proof (cases rule: entries_QNode_cases)
    case 1
    then have "it \<in> fst ` set os" by force
    then show ?thesis unfolding retrieve_QNode by simp
  next
    case (2 j)
    let ?n = "nodeAt (n0, n1, n2, n3) j"
    have mem: "?n \<in> set ?ns" by (rule nodeAt_in_set)
    from wellPlaced4_nodeAt[OF _ 2(1), of b "(n0, n1, n2, n3)"] QNode.prems(1)
    have wn: "wellPlaced ?n" and bn: "bounds ?n = quadrant b j" by simp_all
    from wellPlaced_entries_inside[OF wn 2(2)] bn have qin: "inside (quadrant b j) r" by simp
    have ih: "it \<in> set (retrieve ?n [] q)"
    proof -
      from mem consider "?n = n0" | "?n = n1" | "?n = n2" | "?n = n3" by auto
      then show ?thesis
        by cases (use QNode.IH wn 2(2) QNode.prems(3) in \<open>simp_all del: nodeAt.simps\<close>)
    qed
    show ?thesis
    proof (cases "getIndex b q = -1")
      case True
      have "intersects (bounds ?n) q" using inside_intersects[OF qin QNode.prems(3)] bn by simp
      with mem ih have "it \<in> set (foldl ?f [] ?ns)"
        unfolding foldl_retrieve_set by blast
      with True show ?thesis unfolding retrieve_QNode by simp
    next
      case False
      have "j = getIndex b q"
        using getIndex_prunes[OF refl False 2(1) _ qin] QNode.prems(3) by blast
      with ih False show ?thesis unfolding retrieve_QNode by simp
    qed
  qed
qed

lemma insertAll_props:
  "wellPlaced t \<Longrightarrow> \<forall>e \<in> set items. inside (bounds t) (snd e) \<Longrightarrow>
   wellPlaced (insertAll t items) \<and> bounds (insertAll t items) = bounds t \<and>
   set (entries (insertAll t items)) = set (entries t) \<union> set items"
proof (induction items arbitrary: t)
  case Nil
  then show ?case by (simp add: insertAll_def)
next
  case (Cons e items)
  let ?t = "insertQ t (fst e) (snd e)"
  have w: "wellPlaced ?t" by (rule wellPlaced_insertQ_redistribute(1)) (use Cons.prems in simp_all)
  have "\<forall>e \<in> set items. inside (bounds ?t) (snd e)" using Cons.prems by simp
  from Cons.IH[OF w this] show ?case
    by (simp add: insertAll_def entries_insertQ_redistribute(1))
qed

subsection \<open>Claim C1: retrieval has no false negatives inside the world\<close>

text \<open>The world of both indexes of the scene engine, and some rectangles used as examples.\<close>

definition worldBounds :: Rect where
  "worldBounds = \<lparr>rect_x = -50000, rect_y = -50000, rect_width = 100000, rect_height = 100000\<rparr>"

definition centreRect :: Rect where
  "centreRect = \<lparr>rect_x = -10, rect_y = -10, rect_width = 20, rect_height = 20\<rparr>"

definition cornerRect :: Rect where
  "cornerRect = \<lparr>rect_x = 100, rect_y = 100, rect_width = 200, rect_height = 150\<rparr>"

definition farRect :: Rect where
  "farRect = \<lparr>rect_x = 60000, rect_y = 100, rect_width = 200, rect_height = 150\<rparr>"

definition farQuery :: Rect where
  "farQuery = \<lparr>rect_x = 59990, rect_y = -50, rect_width = 300, rect_height = 300\<rparr>"

definition nearQuery :: Rect where
  "nearQuery = \<lparr>rect_x = -5, rect_y = -5, rect_width = 200, rect_height = 200\<rparr>"

definition elevenItems :: "Rect \<Rightarrow> (nat \<times> Rect) list" where
  "elevenItems r =
     [(1, centreRect), (2, centreRect), (3, centreRect), (4, centreRect), (5, centreRect),
      (6, centreRect), (7, centreRect), (8, centreRect), (9, centreRect), (10, centreRect),
      (11, r)]"

text \<open>
  Claim C1, as amended.  Start from an empty quadtree with bounds \<open>b\<close> (any capacity,
  maximal level and level) and insert a sequence of items whose rectangles all lie inside
  \<open>b\<close>.  Then, for every query rectangle \<open>q\<close>, \<^verbatim>\<open>retrieve\<close> returns every inserted
  item whose rectangle overlaps \<open>q\<close>; it may return others as well.
\<close>

theorem retrieve_superset_inside_bounds:
  assumes "\<forall>e \<in> set items. inside b (snd e)"
    and "(it, r) \<in> set items" and "intersects r q"
  shows "it \<in> set (retrieve (insertAll (QLeaf b c m l []) items) [] q)"
proof -
  have "wellPlaced (QLeaf b c m l ([] :: ('a \<times> Rect) list))" by simp
  from insertAll_props[OF this, of items] assms(1)
  have "wellPlaced (insertAll (QLeaf b c m l []) items)"
    and "set (entries (insertAll (QLeaf b c m l []) items)) = set items" by auto
  with assms(2,3) show ?thesis by (auto intro: retrieve_complete)
qed

text \<open>
  The theorem at eleven items in the world of the scene engine: the eleventh insertion
  splits the root and moves the last item into the south-east child; a query across the
  centre lines still finds it.
\<close>

theorem retrieve_superset_inside_bounds_witness:
  "inside worldBounds centreRect \<and> inside worldBounds cornerRect \<and>
   (11, cornerRect) \<in> set (elevenItems cornerRect) \<and> intersects cornerRect nearQuery \<and>
   11 \<in> set (retrieve (insertAll (QLeaf worldBounds 10 5 0 []) (elevenItems cornerRect)) [] nearQuery)"
  using retrieve_superset_inside_bounds [of "elevenItems cornerRect" worldBounds 11 cornerRect nearQuery 10 5 0]
  by (simp add: elevenItems_def inside_def intersects_def worldBounds_def centreRect_def
        cornerRect_def nearQuery_def)

text \<open>
  Without the restriction the claim fails.  A rectangle east of the world is filed under
  the south-east child once the root has split; a query that overlaps it but straddles the
  horizontal centre line fits no quadrant, overlaps the bounds of no child, and so never
  reaches that child.
\<close>

theorem retrieve_misses_item_outside_bounds:
  "(11, farRect) \<in> set (elevenItems farRect) \<and> intersects farRect farQuery \<and>
   11 \<notin> set (retrieve (insertAll (newQuadtree worldBounds) (elevenItems farRect)) [] farQuery)"
  by (simp add: elevenItems_def insertAll_def newQuadtree_def intersects_def worldBounds_def
        centreRect_def farRect_def farQuery_def Let_def split_def getIndex_def redistribute.simps)

section \<open>Replicated store\<close>

text \<open>
  The records of the store, as \<^verbatim>\<open>document_store.ts\<close> declares them.  A point of a
  stroke is the array \<^verbatim>\<open>[x, y, pressure]\<close>.
\<close>

record CardData =
  card_id :: string
  card_x :: real
  card_y :: real
  card_width :: real
  card_height :: real
  card_color :: nat
  card_text :: string
  card_imageUrl :: "string option"
  createdAt :: int
  updatedAt :: int

record ConnectionData =
  connection_id :: string
  connection_fromId :: string
  connection_toId :: string

type_synonym point = "real \<times> real \<times> real"

record StrokeData =
  strokeData_id :: string
  strokeData_points :: "point list"
  strokeData_color :: nat
  strokeData_width :: real

record BoardData =
  board_cards :: "string \<rightharpoonup> CardData"
  board_connections :: "string \<rightharpoonup> ConnectionData"
  board_strokes :: "string \<rightharpoonup> StrokeData"

text \<open>
  The store keeps three maps of the replicated document (\<^verbatim>\<open>Y.Map\<close>), read here as
  partial maps from identifiers to records: \<^verbatim>\<open>get\<close> and \<^verbatim>\<open>has\<close> look a key up,
  \<^verbatim>\<open>set\<close> stores a value, \<^verbatim>\<open>delete\<close> removes a key and does nothing for a key
  that is absent.  Persistence, the peer transport and the listeners are collaborators
  outside this model.
\<close>

record DocumentStore =
  cardsMap :: "string \<rightharpoonup> CardData"
  connectionsMap :: "string \<rightharpoonup> ConnectionData"
  strokesMap :: "string \<rightharpoonup> StrokeData"

text \<open>\<^verbatim>\<open>Partial<CardData>\<close>: each field present or absent.\<close>

record CardUpdates =
  upd_id :: "string option"
  upd_x :: "real option"
  upd_y :: "real option"
  upd_width :: "real option"
  upd_height :: "real option"
  upd_color :: "nat option"
  upd_text :: "string option"
  upd_imageUrl :: "string option option"
  upd_createdAt :: "int option"
  upd_updatedAt :: "int option"

definition newDocumentStore :: DocumentStore where
  "newDocumentStore = \<lparr>cardsMap = Map.empty, connectionsMap = Map.empty, strokesMap = Map.empty\<rparr>"

text \<open>
  The operations.  \<^verbatim>\<open>crypto.randomUUID()\<close> and \<^verbatim>\<open>Date.now()\<close> are arguments
  (\<open>newId\<close>, \<open>now\<close>).  Operations of the store that share a name with one of the
  scene engine carry the prefix \<open>store_\<close>.
\<close>

definition store_createCard :: "string \<Rightarrow> int \<Rightarrow> real \<Rightarrow> real \<Rightarrow> real \<Rightarrow> real \<Rightarrow> nat \<Rightarrow> string \<Rightarrow> string option
    \<Rightarrow> DocumentStore \<Rightarrow> CardData \<times> DocumentStore" where
  "store_createCard newId now x y w h color text imageUrl s =
     (let cardData = \<lparr>card_id = newId, card_x = x, card_y = y, card_width = w, card_height = h,
                   card_color = color, card_text = text, card_imageUrl = imageUrl,
                   createdAt = now, updatedAt = now\<rparr>
      in (cardData, s\<lparr>cardsMap := (cardsMap s)(newId \<mapsto> cardData)\<rparr>))"

definition store_updateCardPosition :: "int \<Rightarrow> string \<Rightarrow> real \<Rightarrow> real \<Rightarrow> DocumentStore \<Rightarrow> DocumentStore" where
  "store_updateCardPosition now ident x y s =
     (case cardsMap s ident of
        None \<Rightarrow> s
      | Some cardData \<Rightarrow>
          s\<lparr>cardsMap := (cardsMap s)(ident \<mapsto> cardData\<lparr>card_x := x, card_y := y, updatedAt := now\<rparr>)\<rparr>)"

text \<open>The object spread \<^verbatim>\<open>{...card, ...updates}\<close>.\<close>

definition spread :: "CardData \<Rightarrow> CardUpdates \<Rightarrow> CardData" where
  "spread cardData u =
     \<lparr>card_id = (case upd_id u of None \<Rightarrow> card_id cardData | Some v \<Rightarrow> v),
      card_x = (case upd_x u of None \<Rightarrow> card_x cardData | Some v \<Rightarrow> v),
      card_y = (case upd_y u of None \<Rightarrow> card_y cardData | Some v \<Rightarrow> v),
      card_width = (case upd_width u of None \<Rightarrow> card_width cardData | Some v \<Rightarrow> v),
      card_height = (case upd_height u of None \<Rightarrow> card_height cardData | Some v \<Rightarrow> v),
      card_color = (case upd_color u of None \<Rightarrow> card_color cardData | Some v \<Rightarrow> v),
      card_text = (case upd_text u of None \<Rightarrow> card_text cardData | Some v \<Rightarrow> v),
      card_imageUrl = (case upd_imageUrl u of None \<Rightarrow> card_imageUrl cardData | Some v \<Rightarrow> v),
      createdAt = (case upd_createdAt u of None \<Rightarrow> createdAt cardData | Some v \<Rightarrow> v),
      updatedAt = (case upd_updatedAt u of None \<Rightarrow> updatedAt cardData | Some v \<Rightarrow> v)\<rparr>"

definition store_updateCard :: "int \<Rightarrow> string \<Rightarrow> CardUpdates \<Rightarrow> DocumentStore \<Rightarrow> DocumentStore" where
  "store_updateCard now ident updates s =
     (case cardsMap s ident of
        None \<Rightarrow> s
      | Some cardData \<Rightarrow>
          s\<lparr>cardsMap := (cardsMap s)(ident \<mapsto> (spread cardData updates)\<lparr>updatedAt := now\<rparr>)\<rparr>)"

definition store_deleteCard :: "string \<Rightarrow> DocumentStore \<Rightarrow> DocumentStore" where
  "store_deleteCard ident s = s\<lparr>cardsMap := (cardsMap s)(ident := None)\<rparr>"

definition getSnapshot :: "DocumentStore \<Rightarrow> BoardData" where
  "getSnapshot s =
     \<lparr>board_cards = cardsMap s, board_connections = connectionsMap s, board_strokes = strokesMap s\<rparr>"

text \<open>The template string \<^verbatim>\<open>`${fromId}-${toId}`\<close>, used by the store and by the engine.\<close>

definition connectionId :: "string \<Rightarrow> string \<Rightarrow> string" where
  "connectionId fromId toId = fromId @ ''-'' @ toId"

definition store_createConnection :: "string \<Rightarrow> string \<Rightarrow> DocumentStore \<Rightarrow> DocumentStore" where
  "store_createConnection fromId toId s =
     (let ident = connectionId fromId toId in
      if connectionsMap s ident \<noteq> None then s
      else s\<lparr>connectionsMap := (connectionsMap s)(ident \<mapsto>
              \<lparr>connection_id = ident, connection_fromId = fromId, connection_toId = toId\<rparr>)\<rparr>)"

definition store_deleteConnection :: "string \<Rightarrow> DocumentStore \<Rightarrow> DocumentStore" where
  "store_deleteConnection ident s = s\<lparr>connectionsMap := (connectionsMap s)(ident := None)\<rparr>"

definition addStroke :: "StrokeData \<Rightarrow> DocumentStore \<Rightarrow> DocumentStore" where
  "addStroke stroke s = s\<lparr>strokesMap := (strokesMap s)(strokeData_id stroke \<mapsto> stroke)\<rparr>"

definition deleteStroke :: "string \<Rightarrow> DocumentStore \<Rightarrow> DocumentStore" where
  "deleteStroke ident s = s\<lparr>strokesMap := (strokesMap s)(ident := None)\<rparr>"

definition getCard :: "DocumentStore \<Rightarrow> string \<Rightarrow> CardData option" where
  "getCard s ident = cardsMap s ident"

text \<open>
  Claim C4.  For an identifier that is not a key of the card map, \<^verbatim>\<open>updateCard\<close>,
  \<^verbatim>\<open>updateCardPosition\<close> and \<^verbatim>\<open>deleteCard\<close> return normally (the model has no
  error branch, as the source has no \<^verbatim>\<open>throw\<close>) and leave the store, and hence the
  snapshot of its three record maps, unchanged.
\<close>

theorem store_absent_id_noop:
  assumes "cardsMap s ident = None"
  shows "store_updateCard now ident updates s = s \<and>
         store_updateCardPosition now ident x y s = s \<and>
         store_deleteCard ident s = s \<and>
         getSnapshot (store_updateCard now ident updates s) = getSnapshot s \<and>
         getSnapshot (store_updateCardPosition now ident x y s) = getSnapshot s \<and>
         getSnapshot (store_deleteCard ident s) = getSnapshot s"
proof -
  have "(cardsMap s)(ident := None) = cardsMap s" using assms by (simp add: fun_upd_idem_iff)
  then have "store_deleteCard ident s = s" by (simp add: store_deleteCard_def)
  with assms show ?thesis by (simp add: store_updateCard_def store_updateCardPosition_def)
qed

text \<open>The theorem at a store that holds one card, for another identifier.\<close>

definition demoCard :: CardData where
  "demoCard = \<lparr>card_id = ''a'', card_x = 100, card_y = 100, card_width = 200, card_height = 150,
      card_color = 0, card_text = '''', card_imageUrl = None, createdAt = 1, updatedAt = 1\<rparr>"

definition demoStore :: DocumentStore where
  "demoStore = newDocumentStore\<lparr>cardsMap := [''a'' \<mapsto> demoCard]\<rparr>"

definition noUpdates :: CardUpdates where
  "noUpdates = \<lparr>upd_id = None, upd_x = None, upd_y = None, upd_width = None, upd_height = None,
      upd_color = None, upd_text = None, upd_imageUrl = None, upd_createdAt = None, upd_updatedAt = None\<rparr>"

theorem store_absent_id_noop_witness:
  "cardsMap demoStore ''b'' = None \<and>
   store_updateCard 5 ''b'' (noUpdates\<lparr>upd_text := Some ''hello''\<rparr>) demoStore = demoStore \<and>
   store_updateCardPosition 5 ''b'' 3 4 demoStore = demoStore \<and>
   store_deleteCard ''b'' demoStore = demoStore"
  using store_absent_id_noop [of demoStore "''b''" 5 "noUpdates\<lparr>upd_text := Some ''hello''\<rparr>" 3 4]
  by (simp add: demoStore_def newDocumentStore_def)

section \<open>Scene engine\<close>

text \<open>
  The state of class \<^verbatim>\<open>CanvasEngine\<close>, without the drawing: of a graphics object the
  model keeps the position, the cursor and the text of its text node; colours, images,
  selection handles, the grid and remote cursors are left to the rendering backend.
\<close>

record PhysicsConfig =
  mass :: real
  friction :: real
  spring :: real
  staticFrictionThreshold :: real
  minVelocity :: real

definition PHYSICS_CONFIG :: PhysicsConfig where
  "PHYSICS_CONFIG = \<lparr>mass = 15 / 10, friction = 92 / 100, spring = 1 / 10,
     staticFrictionThreshold = 5 / 100, minVelocity = 1 / 100\<rparr>"

record PhysicsState =
  state_x :: real
  state_y :: real
  state_vx :: real
  state_vy :: real
  targetX :: real
  targetY :: real
  isDragging :: bool
  dragOffsetX :: real
  dragOffsetY :: real
  cardId :: string

record ViewportState =
  viewport_x :: real
  viewport_y :: real
  scale :: real
  viewport_vx :: real
  viewport_vy :: real
  viewport_isDragging :: bool
  lastPointerX :: real
  lastPointerY :: real

record Graphics =
  graphics_x :: real
  graphics_y :: real
  cursor :: string
  textNode :: string

record CardEntry =
  graphics :: Graphics
  state :: PhysicsState

record Connection =
  conn_id :: string
  fromId :: string
  toId :: string

text \<open>
  A stroke object holds its points and the identifier that \<^verbatim>\<open>startStroke\<close> and
  \<^verbatim>\<open>hydrate\<close> attach to it.  The same object is reachable from \<^verbatim>\<open>this.strokes\<close>,
  from \<^verbatim>\<open>this.currentStroke\<close> and from an item of the stroke index, and it is extended
  in place while it is drawn.  Stroke objects therefore live in a store
  (\<open>strokeObjects\<close>, from references to objects; \<open>nextStrokeObject\<close> is the next
  unused reference), and the three places hold references.
\<close>

record StrokeState =
  points :: "point list"
  stroke_id :: string

record StrokeItem = Item +
  stroke :: nat

record Container =
  container_x :: real
  container_y :: real
  container_scale :: real

text \<open>
  The callbacks of the persistence collaborator are set by the host.  The model records
  whether a callback is set (a flag of the callback's name) and appends every call made to
  \<open>calls\<close>.  The maps \<^verbatim>\<open>cards\<close> and \<^verbatim>\<open>connections\<close> are association lists in
  insertion order, as a \<^verbatim>\<open>Map\<close> iterates.
\<close>

datatype Callback =
    PositionChange string real real
  | ConnectionCreated string string
  | StrokeFinished string "point list"
  | StrokeDeleted string

record CanvasEngine =
  worldContainer :: Container
  viewport :: ViewportState
  cards :: "(string \<times> CardEntry) list"
  connections :: "(string \<times> Connection) list"
  strokes :: "nat list"
  strokeObjects :: "nat \<Rightarrow> StrokeState"
  nextStrokeObject :: nat
  strokeQuadtree :: "StrokeItem Quadtree"
  cardQuadtree :: "Item Quadtree"
  onPositionChange :: bool
  onConnectionCreated :: bool
  onStrokeFinished :: bool
  onStrokeDeleted :: bool
  currentStroke :: "nat option"
  calls :: "Callback list"

text \<open>Reading a field of \<^verbatim>\<open>undefined\<close> raises a \<^verbatim>\<open>TypeError\<close>.\<close>

datatype error = TypeError

definition newCanvasEngine :: CanvasEngine where
  "newCanvasEngine =
     \<lparr>worldContainer = \<lparr>container_x = 0, container_y = 0, container_scale = 1\<rparr>,
      viewport = \<lparr>viewport_x = 0, viewport_y = 0, scale = 1, viewport_vx = 0, viewport_vy = 0,
                  viewport_isDragging = False, lastPointerX = 0, lastPointerY = 0\<rparr>,
      cards = [], connections = [], strokes = [],
      strokeObjects = (\<lambda>_. \<lparr>points = [], stroke_id = ''''\<rparr>), nextStrokeObject = 0,
      strokeQuadtree = newQuadtree worldBounds, cardQuadtree = newQuadtree worldBounds,
      onPositionChange = False, onConnectionCreated = False, onStrokeFinished = False,
      onStrokeDeleted = False, currentStroke = None, calls = []\<rparr>"

definition setOnPositionChange :: "CanvasEngine \<Rightarrow> CanvasEngine" where
  "setOnPositionChange e = e\<lparr>onPositionChange := True\<rparr>"

definition setPersistenceCallbacks :: "CanvasEngine \<Rightarrow> CanvasEngine" where
  "setPersistenceCallbacks e =
     e\<lparr>onConnectionCreated := True, onStrokeFinished := True, onStrokeDeleted := True\<rparr>"

text \<open>
  The world container is placed at the viewport offset and scaled by the viewport scale;
  \<^verbatim>\<open>toLocal\<close> maps a screen point to the world, \<^verbatim>\<open>toGlobal\<close> back.
\<close>

definition toLocal :: "Container \<Rightarrow> real \<times> real \<Rightarrow> real \<times> real" where
  "toLocal w p = ((fst p - container_x w) / container_scale w, (snd p - container_y w) / container_scale w)"

definition toGlobal :: "Container \<Rightarrow> real \<times> real \<Rightarrow> real \<times> real" where
  "toGlobal w p = (container_x w + fst p * container_scale w, container_y w + snd p * container_scale w)"

subsection \<open>Double precision\<close>

text \<open>
  A \<^verbatim>\<open>number\<close> is a binary64 floating-point number, and every arithmetic operation
  of the source rounds its exact result to the nearest such number, ties to the even
  significand.  \<open>fl\<close> is that rounding, on the reals: \<open>binade x\<close> is the power of two
  \<open>p\<close> with \<open>p \<le> \<bar>x\<bar> < 2 * p\<close>, and \<open>ulp x\<close> is the spacing of the
  double-precision numbers at \<open>x\<close>, which below \<open>2 ^ -1022\<close>, where they are
  subnormal, stays \<open>2 ^ -1074\<close>.  Overflow to infinity is not represented.  The wheel
  handler is read with this rounding, since what is claimed of it is an equality between
  computed numbers.  A literal such as \<^verbatim>\<open>0.9\<close> is the double nearest to it; comparisons,
  \<^verbatim>\<open>Math.max\<close> and \<^verbatim>\<open>Math.min\<close> do not round.
\<close>

function binadeUp :: "real \<Rightarrow> real" where
  "binadeUp x = (if x < 2 then 1 else 2 * binadeUp (x / 2))"
  by pat_completeness auto
termination
proof (relation "measure (\<lambda>x. nat \<lceil>x\<rceil>)")
  show "wf (measure (\<lambda>x :: real. nat \<lceil>x\<rceil>))" by simp
next
  fix x :: real
  assume "\<not> x < 2"
  then have h: "x / 2 \<le> of_int (\<lceil>x\<rceil> - 1)" and c: "2 \<le> \<lceil>x\<rceil>" by linarith+
  from h have "\<lceil>x / 2\<rceil> \<le> \<lceil>x\<rceil> - 1" by (rule ceiling_le)
  with c have "nat \<lceil>x / 2\<rceil> < nat \<lceil>x\<rceil>" by linarith
  then show "(x / 2, x) \<in> measure (\<lambda>x. nat \<lceil>x\<rceil>)" by simp
qed

function binadeDown :: "real \<Rightarrow> real" where
  "binadeDown x = (if x \<le> 0 \<or> 1 \<le> x then 1 else binadeDown (2 * x) / 2)"
  by pat_completeness auto
termination
proof (relation "measure (\<lambda>x. nat \<lceil>1 / x\<rceil>)")
  show "wf (measure (\<lambda>x :: real. nat \<lceil>1 / x\<rceil>))" by simp
next
  fix x :: real
  assume "\<not> (x \<le> 0 \<or> 1 \<le> x)"
  then have "1 < 1 / x" by simp
  then have c: "2 \<le> \<lceil>1 / x\<rceil>" by linarith
  then have "2 \<le> (of_int \<lceil>1 / x\<rceil> :: real)" by linarith
  moreover have "1 / x \<le> of_int \<lceil>1 / x\<rceil>" by (rule le_of_int_ceiling)
  moreover have "y \<le> C \<Longrightarrow> 2 \<le> C \<Longrightarrow> y / 2 \<le> C - 1" for y C :: real by linarith
  ultimately have "1 / x / 2 \<le> of_int \<lceil>1 / x\<rceil> - 1" by blast
  then have "1 / (2 * x) \<le> of_int (\<lceil>1 / x\<rceil> - 1)" by simp
  then have "\<lceil>1 / (2 * x)\<rceil> \<le> \<lceil>1 / x\<rceil> - 1" by (rule ceiling_le)
  with c have "nat \<lceil>1 / (2 * x)\<rceil> < nat \<lceil>1 / x\<rceil>" by linarith
  then show "(2 * x, x) \<in> measure (\<lambda>x. nat \<lceil>1 / x\<rceil>)" by simp
qed

declare binadeUp.simps [simp del]

declare binadeDown.simps [simp del]

definition binade :: "real \<Rightarrow> real" where
  "binade x = (if 1 \<le> \<bar>x\<bar> then binadeUp \<bar>x\<bar> else binadeDown \<bar>x\<bar>)"

definition ulp :: "real \<Rightarrow> real" where
  "ulp x = max (binade x) (1 / 2 ^ 1022) / 2 ^ 52"

definition roundTiesToEven :: "real \<Rightarrow> int" where
  "roundTiesToEven y =
     (let f = \<lfloor>y\<rfloor>; d = y - of_int f
      in if d < 1 / 2 then f else if 1 / 2 < d then f + 1 else if even f then f else f + 1)"

definition fl :: "real \<Rightarrow> real" where
  "fl x = of_int (roundTiesToEven (x / ulp x)) * ulp x"

text \<open>The wheel handler: zoom by 0.9 or 1.1 around the pointer, clamped to \<open>[0.1, 5]\<close>.\<close>

definition wheel :: "real \<Rightarrow> real \<Rightarrow> real \<Rightarrow> ViewportState \<Rightarrow> ViewportState" where
  "wheel deltaY offsetX offsetY v =
     (let zoomFactor = (if deltaY > 0 then fl (9 / 10) else fl (11 / 10));
          oldScale = scale v;
          newScale = max (fl (1 / 10)) (min 5 (fl (oldScale * zoomFactor)));
          mouseX = offsetX;
          mouseY = offsetY
      in v\<lparr>viewport_x := fl (mouseX - fl (fl (mouseX - viewport_x v) * fl (newScale / oldScale))),
            viewport_y := fl (mouseY - fl (fl (mouseY - viewport_y v) * fl (newScale / oldScale))),
            scale := newScale\<rparr>)"

definition onWheel :: "real \<Rightarrow> real \<Rightarrow> real \<Rightarrow> CanvasEngine \<Rightarrow> CanvasEngine" where
  "onWheel deltaY offsetX offsetY e = e\<lparr>viewport := wheel deltaY offsetX offsetY (viewport e)\<rparr>"

subsection \<open>Drawing a stroke\<close>

text \<open>\<^verbatim>\<open>v || d\<close> on numbers: zero is falsy.\<close>

definition orDefault :: "real \<Rightarrow> real \<Rightarrow> real" where
  "orDefault v d = (if v = 0 then d else v)"

definition startStroke :: "real \<times> real \<Rightarrow> real \<Rightarrow> string \<Rightarrow> CanvasEngine \<Rightarrow> CanvasEngine" where
  "startStroke global pressure strokeId e =
     (let localPos = toLocal (worldContainer e) global;
          r = nextStrokeObject e;
          obj = \<lparr>points = [(fst localPos, snd localPos, orDefault pressure (5 / 10))], stroke_id = strokeId\<rparr>
      in e\<lparr>strokeObjects := (strokeObjects e)(r := obj),
            nextStrokeObject := Suc r,
            currentStroke := Some r,
            strokes := strokes e @ [r]\<rparr>)"

text \<open>
  A pointer move carries either the coalesced samples of the native event or, when the
  browser has none, the position and pressure of the event itself.
\<close>

datatype PointerSamples =
    Coalesced "(real \<times> real \<times> real) list"
  | Fallback "real \<times> real" real

definition pushPoints :: "nat \<Rightarrow> point list \<Rightarrow> CanvasEngine \<Rightarrow> CanvasEngine" where
  "pushPoints r ps e =
     e\<lparr>strokeObjects := (strokeObjects e)(r := (strokeObjects e r)\<lparr>points := points (strokeObjects e r) @ ps\<rparr>)\<rparr>"

definition continueStroke :: "PointerSamples \<Rightarrow> CanvasEngine \<Rightarrow> CanvasEngine" where
  "continueStroke ev e =
     (case currentStroke e of
        None \<Rightarrow> e
      | Some r \<Rightarrow>
          (case ev of
             Coalesced coalesced \<Rightarrow>
               foldl (\<lambda>e p. case p of (clientX, clientY, pressure) \<Rightarrow>
                        (let localPos = toLocal (worldContainer e) (clientX, clientY)
                         in pushPoints r [(fst localPos, snd localPos, orDefault pressure (5 / 10))] e))
                 e coalesced
           | Fallback global pressure \<Rightarrow>
               (let localPos = toLocal (worldContainer e) global
                in pushPoints r [(fst localPos, snd localPos, orDefault pressure (5 / 10))] e)))"

text \<open>
  \<^verbatim>\<open>getStrokeBounds\<close>: the bounding box of the points, padded by 20.  The source starts
  from infinite bounds, which the first point replaces; a stroke without points has no
  rectangle of real numbers.
\<close>

definition getStrokeBounds :: "StrokeState \<Rightarrow> Rect option" where
  "getStrokeBounds s =
     (case points s of
        [] \<Rightarrow> None
      | p # ps \<Rightarrow>
          (let padding = 20;
               minX = foldl (\<lambda>m q. if fst q < m then fst q else m) (fst p) ps;
               minY = foldl (\<lambda>m q. if fst (snd q) < m then fst (snd q) else m) (fst (snd p)) ps;
               maxX = foldl (\<lambda>m q. if fst q > m then fst q else m) (fst p) ps;
               maxY = foldl (\<lambda>m q. if fst (snd q) > m then fst (snd q) else m) (fst (snd p)) ps
           in Some \<lparr>rect_x = minX - padding, rect_y = minY - padding,
                    rect_width = maxX - minX + padding * 2,
                    rect_height = maxY - minY + padding * 2\<rparr>))"

text \<open>
  \<^verbatim>\<open>endStroke\<close>.  With an empty list of points \<^verbatim>\<open>p[0]\<close> would raise; this is the
  first error branch.  The second cannot be taken, since the stroke has two points or more
  when its bounds are computed.
\<close>

definition endStroke :: "CanvasEngine \<Rightarrow> error + CanvasEngine" where
  "endStroke e =
     (case currentStroke e of
        None \<Rightarrow> Inr e
      | Some r \<Rightarrow>
          (case (if length (points (strokeObjects e r)) < 2 then
                   (case points (strokeObjects e r) of
                      [] \<Rightarrow> Inl TypeError
                    | p # _ \<Rightarrow> Inr (pushPoints r [(fst p + 1 / 10, fst (snd p) + 1 / 10, snd (snd p))] e))
                 else Inr e) of
             Inl err \<Rightarrow> Inl err
           | Inr e1 \<Rightarrow>
               (let s = strokeObjects e1 r;
                    e2 = (if onStrokeFinished e1
                          then e1\<lparr>calls := calls e1 @ [StrokeFinished (stroke_id s) (points s)]\<rparr>
                          else e1)
                in case getStrokeBounds s of
                     None \<Rightarrow> Inl TypeError
                   | Some strokeBounds \<Rightarrow>
                       Inr (e2\<lparr>strokeQuadtree :=
                                 insertQ (strokeQuadtree e2) \<lparr>item_id = stroke_id s, stroke = r\<rparr> strokeBounds,
                               currentStroke := None\<rparr>))))"

subsection \<open>Cards\<close>

definition createCard :: "string \<Rightarrow> real \<Rightarrow> real \<Rightarrow> string \<Rightarrow> CanvasEngine \<Rightarrow> CanvasEngine" where
  "createCard ident x y textContent e =
     (if map_of (cards e) ident \<noteq> None then e
      else
        (let g = \<lparr>graphics_x = x, graphics_y = y, cursor = ''grab'', textNode = textContent\<rparr>;
             st = \<lparr>state_x = x, state_y = y, state_vx = 0, state_vy = 0, targetX = x, targetY = y,
                   isDragging = False, dragOffsetX = 0, dragOffsetY = 0, cardId = ident\<rparr>
         in e\<lparr>cards := AList.update ident \<lparr>graphics = g, state = st\<rparr> (cards e),
               cardQuadtree := insertQ (cardQuadtree e) \<lparr>item_id = ident\<rparr>
                  \<lparr>rect_x = x, rect_y = y, rect_width = 200, rect_height = 150\<rparr>\<rparr>))"

definition updateCardPosition :: "string \<Rightarrow> real \<Rightarrow> real \<Rightarrow> CanvasEngine \<Rightarrow> CanvasEngine" where
  "updateCardPosition ident x y e =
     (case map_of (cards e) ident of
        None \<Rightarrow> e
      | Some c \<Rightarrow>
          if \<not> isDragging (state c) then
            e\<lparr>cards := AList.update ident (c\<lparr>state := (state c)\<lparr>targetX := x, targetY := y\<rparr>\<rparr>) (cards e),
              cardQuadtree := insertQ (remove (cardQuadtree e) ident) \<lparr>item_id = ident\<rparr>
                 \<lparr>rect_x = x, rect_y = y, rect_width = 200, rect_height = 150\<rparr>\<rparr>
          else e)"

definition updateCardText :: "string \<Rightarrow> string \<Rightarrow> CanvasEngine \<Rightarrow> CanvasEngine" where
  "updateCardText ident text e =
     (case map_of (cards e) ident of
        None \<Rightarrow> e
      | Some c \<Rightarrow> e\<lparr>cards := AList.update ident (c\<lparr>graphics := (graphics c)\<lparr>textNode := text\<rparr>\<rparr>) (cards e)\<rparr>)"

definition getCardScreenBounds :: "string \<Rightarrow> CanvasEngine \<Rightarrow> Rect option" where
  "getCardScreenBounds ident e =
     (case map_of (cards e) ident of
        None \<Rightarrow> None
      | Some c \<Rightarrow>
          (let globalPos = toGlobal (worldContainer e) (state_x (state c), state_y (state c));
               sc = container_scale (worldContainer e)
           in Some \<lparr>rect_x = fst globalPos, rect_y = snd globalPos,
                    rect_width = 200 * sc, rect_height = 150 * sc\<rparr>))"

definition removeCard :: "string \<Rightarrow> CanvasEngine \<Rightarrow> CanvasEngine" where
  "removeCard ident e =
     (case map_of (cards e) ident of
        None \<Rightarrow> e
      | Some c \<Rightarrow> e\<lparr>cards := AList.delete ident (cards e)\<rparr>)"

definition getCardsInRect :: "real \<Rightarrow> real \<Rightarrow> real \<Rightarrow> real \<Rightarrow> CanvasEngine \<Rightarrow> string list" where
  "getCardsInRect x y w h e =
     (let rx = (if w < 0 then x + w else x);
          ry = (if h < 0 then y + h else y);
          rw = \<bar>w\<bar>;
          rh = \<bar>h\<bar>;
          candidates = retrieve (cardQuadtree e) []
                         \<lparr>rect_x = rx, rect_y = ry, rect_width = rw, rect_height = rh\<rparr>
      in foldl (\<lambda>found item.
                  case map_of (cards e) (item_id item) of
                    None \<Rightarrow> found
                  | Some c \<Rightarrow>
                      (let cw = 200; ch = 150; st = state c in
                       if state_x st < rx + rw \<and> state_x st + cw > rx \<and>
                          state_y st < ry + rh \<and> state_y st + ch > ry
                       then found @ [item_id item] else found))
           [] candidates)"

subsection \<open>Connections\<close>

definition createConnection :: "string \<Rightarrow> string \<Rightarrow> CanvasEngine \<Rightarrow> CanvasEngine" where
  "createConnection from to e =
     (let ident = connectionId from to in
      if map_of (connections e) ident \<noteq> None then e
      else
        (let e1 = e\<lparr>connections := AList.update ident \<lparr>conn_id = ident, fromId = from, toId = to\<rparr> (connections e)\<rparr>
         in if onConnectionCreated e1 then e1\<lparr>calls := calls e1 @ [ConnectionCreated from to]\<rparr> else e1))"

subsection \<open>Hydration\<close>

text \<open>
  \<^verbatim>\<open>hydrate\<close> in its three parts: cards, connections, strokes.  A stroke that arrives
  by hydration is listed in the scene but not filed in the stroke index.
\<close>

definition hydrateCards :: "CardData list \<Rightarrow> CanvasEngine \<Rightarrow> CanvasEngine" where
  "hydrateCards cs e =
     (let incomingCardIds = map card_id cs;
          e1 = foldl (\<lambda>e ident. if ident \<notin> set incomingCardIds then removeCard ident e else e)
                 e (map fst (cards e))
      in foldl (\<lambda>e c.
                  case map_of (cards e) (card_id c) of
                    None \<Rightarrow> createCard (card_id c) (card_x c) (card_y c) (card_text c) e
                  | Some existing \<Rightarrow>
                      updateCardText (card_id c) (card_text c)
                        (if \<not> isDragging (state existing)
                         then updateCardPosition (card_id c) (card_x c) (card_y c) e else e))
           e1 cs)"

definition hydrateConnections :: "ConnectionData list \<Rightarrow> CanvasEngine \<Rightarrow> CanvasEngine" where
  "hydrateConnections cs e =
     (let incomingConnIds = map connection_id cs;
          e1 = foldl (\<lambda>e ident. if ident \<notin> set incomingConnIds
                                  then e\<lparr>connections := AList.delete ident (connections e)\<rparr> else e)
                 e (map fst (connections e))
      in foldl (\<lambda>e c.
                  if map_of (connections e) (connection_id c) = None
                  then e\<lparr>connections := AList.update (connection_id c)
                          \<lparr>conn_id = connection_id c, fromId = connection_fromId c, toId = connection_toId c\<rparr>
                          (connections e)\<rparr>
                  else e)
           e1 cs)"

text \<open>
  The loop over \<^verbatim>\<open>this.strokes\<close> from the last position down to 0 that splices out
  every stroke whose identifier is set and not in the snapshot; started at the length.
\<close>

fun dropStaleStrokes :: "(nat \<Rightarrow> StrokeState) \<Rightarrow> string list \<Rightarrow> nat list \<Rightarrow> nat \<Rightarrow> nat list" where
  "dropStaleStrokes objs incoming ss 0 = ss"
| "dropStaleStrokes objs incoming ss (Suc i) =
     (let s = objs (ss ! i) in
      dropStaleStrokes objs incoming
        (if stroke_id s \<noteq> '''' \<and> stroke_id s \<notin> set incoming then splice1 ss i else ss) i)"

definition hydrateStrokes :: "StrokeData list \<Rightarrow> CanvasEngine \<Rightarrow> CanvasEngine" where
  "hydrateStrokes ss e =
     (let incomingStrokeIds = map strokeData_id ss;
          e1 = e\<lparr>strokes := dropStaleStrokes (strokeObjects e) incomingStrokeIds (strokes e) (length (strokes e))\<rparr>;
          existingStrokeIds = map (\<lambda>r. stroke_id (strokeObjects e1 r)) (strokes e1)
      in foldl (\<lambda>e s.
                  if strokeData_id s \<notin> set existingStrokeIds then
                    (let r = nextStrokeObject e in
                     e\<lparr>strokeObjects := (strokeObjects e)(r := \<lparr>points = strokeData_points s, stroke_id = strokeData_id s\<rparr>),
                       nextStrokeObject := Suc r,
                       strokes := strokes e @ [r]\<rparr>)
                  else e)
           e1 ss)"

definition hydrate :: "CardData list \<Rightarrow> ConnectionData list \<Rightarrow> StrokeData list \<Rightarrow> CanvasEngine \<Rightarrow> CanvasEngine" where
  "hydrate cs conns ss e = hydrateStrokes ss (hydrateConnections conns (hydrateCards cs e))"

subsection \<open>Erasing\<close>

text \<open>\<^verbatim>\<open>distToSegment\<close>: the distance from a point to the closest point of a segment.\<close>

definition distToSegment :: "real \<Rightarrow> real \<Rightarrow> real \<Rightarrow> real \<Rightarrow> real \<Rightarrow> real \<Rightarrow> real" where
  "distToSegment px py x1 y1 x2 y2 =
     (let l2 = (x1 - x2)\<^sup>2 + (y1 - y2)\<^sup>2 in
      if l2 = 0 then sqrt ((px - x1)\<^sup>2 + (py - y1)\<^sup>2)
      else
        (let t = ((px - x1) * (x2 - x1) + (py - y1) * (y2 - y1)) / l2;
             t' = max 0 (min 1 t)
         in sqrt ((px - (x1 + t' * (x2 - x1)))\<^sup>2 + (py - (y1 + t' * (y2 - y1)))\<^sup>2)))"

text \<open>
  The inner loop of \<^verbatim>\<open>eraseAt\<close>: is some segment of the stroke closer than the
  radius?  Then the loop over the candidates that collects the identifiers of the hit
  strokes, each once; then, for every hit, the call to the collaborator, the removal from
  the index and the removal of the first stroke of that identifier from the scene.
\<close>

fun strokeHit :: "real \<times> real \<Rightarrow> real \<Rightarrow> point list \<Rightarrow> bool" where
  "strokeHit localPos radius (p1 # p2 # ps) =
     (if distToSegment (fst localPos) (snd localPos) (fst p1) (fst (snd p1)) (fst p2) (fst (snd p2)) < radius
      then True
      else strokeHit localPos radius (p2 # ps))"
| "strokeHit localPos radius ps = False"

definition eraseHits :: "CanvasEngine \<Rightarrow> real \<times> real \<Rightarrow> real \<Rightarrow> StrokeItem list \<Rightarrow> string list" where
  "eraseHits e localPos radius candidates =
     foldl (\<lambda>hits item.
              (let s = strokeObjects e (stroke item) in
               if strokeHit localPos radius (points s) then
                 (let strokeId = stroke_id s in
                  if strokeId \<noteq> '''' \<and> strokeId \<notin> set hits then hits @ [strokeId] else hits)
               else hits))
       [] candidates"

definition eraseStroke :: "CanvasEngine \<Rightarrow> string \<Rightarrow> CanvasEngine" where
  "eraseStroke e ident =
     (let e1 = (if onStrokeDeleted e then e\<lparr>calls := calls e @ [StrokeDeleted ident]\<rparr> else e);
          e2 = e1\<lparr>strokeQuadtree := remove (strokeQuadtree e1) ident\<rparr>;
          idx = findIndex (\<lambda>r. stroke_id (strokeObjects e2 r) = ident) (strokes e2)
      in if idx \<noteq> -1 then e2\<lparr>strokes := splice1 (strokes e2) (nat idx)\<rparr> else e2)"

definition eraseAt :: "real \<Rightarrow> real \<Rightarrow> CanvasEngine \<Rightarrow> CanvasEngine" where
  "eraseAt x y e =
     (let localPos = toLocal (worldContainer e) (x, y);
          radius = 20;
          searchBounds = \<lparr>rect_x = fst localPos - radius, rect_y = snd localPos - radius,
                          rect_width = radius * 2, rect_height = radius * 2\<rparr>;
          candidates = retrieve (strokeQuadtree e) [] searchBounds;
          hits = eraseHits e localPos radius candidates
      in foldl eraseStroke e hits)"

subsection \<open>Dragging and the physics tick\<close>

definition startDrag :: "real \<times> real \<Rightarrow> string \<Rightarrow> string list option \<Rightarrow> CanvasEngine \<Rightarrow> CanvasEngine" where
  "startDrag global ident selectedIds e =
     (let targets = (case selectedIds of
                       Some sel \<Rightarrow> if ident \<in> set sel then sel else [ident]
                     | None \<Rightarrow> [ident]);
          localPos = toLocal (worldContainer e) global
      in foldl (\<lambda>e tid.
                  case map_of (cards e) tid of
                    None \<Rightarrow> e
                  | Some c \<Rightarrow>
                      e\<lparr>cards := AList.update tid
                          (c\<lparr>state := (state c)\<lparr>isDragging := True, state_vx := 0, state_vy := 0,
                                dragOffsetX := fst localPos - state_x (state c),
                                dragOffsetY := snd localPos - state_y (state c)\<rparr>,
                             graphics := (graphics c)\<lparr>cursor := ''grabbing''\<rparr>\<rparr>)
                          (cards e)\<rparr>)
           e targets)"

text \<open>\<^verbatim>\<open>Math.round\<close> rounds to the nearest integer, halves upwards.\<close>

definition roundHalfUp :: "real \<Rightarrow> real" where
  "roundHalfUp v = of_int \<lfloor>v + 1 / 2\<rfloor>"

text \<open>
  The part of the pointer-move handler that moves the dragged cards, and the part of the
  pointer-up handler that ends their drag and reports the positions.
\<close>

definition dragCard :: "real \<times> real \<Rightarrow> CardEntry \<Rightarrow> CardEntry" where
  "dragCard localMousePos c =
     (let st = state c in
      if isDragging st then
        (let newX = fst localMousePos - dragOffsetX st;
             newY = snd localMousePos - dragOffsetY st;
             gridSize = 50;
             st' = st\<lparr>state_vx := (newX - state_x st) / mass PHYSICS_CONFIG,
                      state_vy := (newY - state_y st) / mass PHYSICS_CONFIG,
                      state_x := newX, state_y := newY,
                      targetX := roundHalfUp (newX / gridSize) * gridSize,
                      targetY := roundHalfUp (newY / gridSize) * gridSize\<rparr>
         in c\<lparr>state := st', graphics := (graphics c)\<lparr>graphics_x := state_x st', graphics_y := state_y st'\<rparr>\<rparr>)
      else c)"

definition dragCards :: "real \<times> real \<Rightarrow> CanvasEngine \<Rightarrow> CanvasEngine" where
  "dragCards global e =
     (let localMousePos = toLocal (worldContainer e) global
      in e\<lparr>cards := map (\<lambda>kc. (fst kc, dragCard localMousePos (snd kc))) (cards e)\<rparr>)"

definition endCardDrags :: "CanvasEngine \<Rightarrow> CanvasEngine" where
  "endCardDrags e =
     foldl (\<lambda>e kc.
              if isDragging (state (snd kc)) then
                (let c = snd kc;
                     e1 = e\<lparr>cards := AList.update (fst kc)
                             (c\<lparr>state := (state c)\<lparr>isDragging := False\<rparr>,
                                graphics := (graphics c)\<lparr>cursor := ''grab''\<rparr>\<rparr>) (cards e)\<rparr>
                 in if onPositionChange e1
                    then e1\<lparr>calls := calls e1 @ [PositionChange (fst kc) (state_x (state c)) (state_y (state c))]\<rparr>
                    else e1)
              else e)
       e (cards e)"

text \<open>
  \<^verbatim>\<open>physicsTick\<close>: inertia of the viewport with its threshold, the copy of the viewport
  into the world container, and the spring step of every card that is not dragged.
\<close>

definition tickViewport :: "ViewportState \<Rightarrow> ViewportState" where
  "tickViewport v =
     (if \<not> viewport_isDragging v then
        (let vx = viewport_vx v * friction PHYSICS_CONFIG;
             vy = viewport_vy v * friction PHYSICS_CONFIG;
             x = viewport_x v + vx;
             y = viewport_y v + vy
         in v\<lparr>viewport_x := x, viewport_y := y,
               viewport_vx := (if \<bar>vx\<bar> < minVelocity PHYSICS_CONFIG then 0 else vx),
               viewport_vy := (if \<bar>vy\<bar> < minVelocity PHYSICS_CONFIG then 0 else vy)\<rparr>)
      else v)"

definition tickState :: "PhysicsState \<Rightarrow> PhysicsState" where
  "tickState st =
     (let dx = targetX st - state_x st;
          dy = targetY st - state_y st;
          ax = (dx * spring PHYSICS_CONFIG) / mass PHYSICS_CONFIG;
          ay = (dy * spring PHYSICS_CONFIG) / mass PHYSICS_CONFIG;
          vx = (state_vx st + ax) * friction PHYSICS_CONFIG;
          vy = (state_vy st + ay) * friction PHYSICS_CONFIG
      in st\<lparr>state_vx := vx, state_vy := vy, state_x := state_x st + vx, state_y := state_y st + vy\<rparr>)"

definition tickCard :: "CardEntry \<Rightarrow> CardEntry" where
  "tickCard c =
     (if \<not> isDragging (state c) then
        (let st = tickState (state c)
         in c\<lparr>state := st, graphics := (graphics c)\<lparr>graphics_x := state_x st, graphics_y := state_y st\<rparr>\<rparr>)
      else c)"

definition physicsTick :: "CanvasEngine \<Rightarrow> CanvasEngine" where
  "physicsTick e =
     (let v = tickViewport (viewport e)
      in e\<lparr>viewport := v,
            worldContainer := \<lparr>container_x = viewport_x v, container_y = viewport_y v,
                               container_scale = scale v\<rparr>,
            cards := map (\<lambda>kc. (fst kc, tickCard (snd kc))) (cards e)\<rparr>)"

section \<open>Interaction state machine\<close>

text \<open>
  The state of class \<^verbatim>\<open>InteractionManager\<close>.  The manager holds the engine it was
  given by \<^verbatim>\<open>setEngine\<close>, or none; \<^verbatim>\<open>this.engine?.f(...)\<close> is \<open>map_option\<close>.
  The selection is a \<^verbatim>\<open>Set\<close>, kept as a list without repetitions in insertion order.
  \<^verbatim>\<open>Date.now()\<close> is the argument \<open>now\<close>; calls of \<^verbatim>\<open>onEditStart\<close> are logged in
  \<open>editStarts\<close>.
\<close>

datatype InteractionMode =
  IDLE | PANNING | DRAGGING | SELECTING | DRAWING | ERASING | CONNECTING | EDITING

record PointerEvent =
  globalX :: real
  globalY :: real
  pressure :: real
  shiftKey :: bool
  button :: int

record InteractionManager =
  mode :: InteractionMode
  isSpacePressed :: bool
  engine :: "CanvasEngine option"
  selectedCardIds :: "string list"
  lastClickTime :: int
  lastClickedCardId :: "string option"
  onEditStart :: bool
  editStarts :: "string list"
  dragStart :: "(real \<times> real) option"
  connectionStartId :: "string option"

definition newInteractionManager :: InteractionManager where
  "newInteractionManager =
     \<lparr>mode = IDLE, isSpacePressed = False, engine = None, selectedCardIds = [],
      lastClickTime = 0, lastClickedCardId = None, onEditStart = False, editStarts = [],
      dragStart = None, connectionStartId = None\<rparr>"

definition setEngine :: "CanvasEngine \<Rightarrow> InteractionManager \<Rightarrow> InteractionManager" where
  "setEngine e m = m\<lparr>engine := Some e\<rparr>"

definition setMode :: "InteractionMode \<Rightarrow> InteractionManager \<Rightarrow> InteractionManager" where
  "setMode newMode m = (if mode m = newMode then m else m\<lparr>mode := newMode\<rparr>)"

definition selectCard :: "string \<Rightarrow> InteractionManager \<Rightarrow> InteractionManager" where
  "selectCard ident m =
     m\<lparr>selectedCardIds := (if ident \<in> set (selectedCardIds m) then selectedCardIds m
                             else selectedCardIds m @ [ident])\<rparr>"

definition deselectAll :: "InteractionManager \<Rightarrow> InteractionManager" where
  "deselectAll m = m\<lparr>selectedCardIds := []\<rparr>"

definition startPan :: "PointerEvent \<Rightarrow> CanvasEngine \<Rightarrow> CanvasEngine" where
  "startPan ev e =
     e\<lparr>viewport := (viewport e)\<lparr>viewport_isDragging := True, viewport_vx := 0, viewport_vy := 0,
                        lastPointerX := globalX ev, lastPointerY := globalY ev\<rparr>\<rparr>"

definition handleCanvasDown :: "PointerEvent \<Rightarrow> string \<Rightarrow> InteractionManager \<Rightarrow> InteractionManager" where
  "handleCanvasDown ev newId m =
     (if isSpacePressed m \<or> button ev = 1 then
        (let m1 = setMode PANNING m in m1\<lparr>engine := map_option (startPan ev) (engine m1)\<rparr>)
      else if mode m = DRAWING then
        m\<lparr>engine := map_option (startStroke (globalX ev, globalY ev) (pressure ev) newId) (engine m)\<rparr>
      else if mode m = IDLE then
        (let m1 = deselectAll m; m2 = setMode SELECTING m1
         in m2\<lparr>dragStart := Some (globalX ev, globalY ev)\<rparr>)
      else m)"

text \<open>\<^verbatim>\<open>new Set(ids)\<close>: the identifiers in order of first occurrence.\<close>

definition newSet :: "string list \<Rightarrow> string list" where
  "newSet ids = foldl (\<lambda>acc i. if i \<in> set acc then acc else acc @ [i]) [] ids"

definition handleGlobalMove :: "PointerEvent \<Rightarrow> InteractionManager \<Rightarrow> InteractionManager" where
  "handleGlobalMove ev m =
     (case (dragStart m, engine m) of
        (Some ds, Some e) \<Rightarrow>
          if mode m = SELECTING then
            (let startLocal = toLocal (worldContainer e) ds;
                 currentLocal = toLocal (worldContainer e) (globalX ev, globalY ev);
                 x = min (fst startLocal) (fst currentLocal);
                 y = min (snd startLocal) (snd currentLocal);
                 w = \<bar>fst currentLocal - fst startLocal\<bar>;
                 h = \<bar>snd currentLocal - snd startLocal\<bar>
             in m\<lparr>selectedCardIds := newSet (getCardsInRect x y w h e)\<rparr>)
          else m
      | _ \<Rightarrow> m)"

definition handleGlobalUp :: "InteractionManager \<Rightarrow> InteractionManager" where
  "handleGlobalUp m =
     (if mode m = SELECTING then (setMode IDLE m)\<lparr>dragStart := None\<rparr> else m)"

definition handleCardDown :: "PointerEvent \<Rightarrow> string \<Rightarrow> int \<Rightarrow> InteractionManager \<Rightarrow> InteractionManager" where
  "handleCardDown ev ident now m =
     (if isSpacePressed m then m
      else
        (let delta = now - lastClickTime m in
         if lastClickedCardId m = Some ident \<and> delta < 500 then
           (let m1 = setMode EDITING m
            in if onEditStart m1 then m1\<lparr>editStarts := editStarts m1 @ [ident]\<rparr> else m1)
         else
           (let m1 = m\<lparr>lastClickTime := now, lastClickedCardId := Some ident\<rparr>;
                m2 = (if \<not> shiftKey ev then
                        (if ident \<notin> set (selectedCardIds m1) then deselectAll m1 else m1)
                      else m1);
                m3 = selectCard ident m2
            in if mode m3 = CONNECTING then m3\<lparr>connectionStartId := Some ident\<rparr>
               else
                 (let m4 = setMode DRAGGING m3
                  in m4\<lparr>engine := map_option
                          (startDrag (globalX ev, globalY ev) ident (Some (selectedCardIds m4)))
                          (engine m4)\<rparr>))))"

definition handleCardUp :: "string \<Rightarrow> InteractionManager \<Rightarrow> InteractionManager" where
  "handleCardUp ident m =
     (case connectionStartId m of
        None \<Rightarrow> m
      | Some start \<Rightarrow>
          if mode m = CONNECTING \<and> start \<noteq> '''' then
            (let m1 = (if start \<noteq> ident
                       then m\<lparr>engine := map_option (createConnection start ident) (engine m)\<rparr>
                       else m)
             in m1\<lparr>connectionStartId := None\<rparr>)
          else m)"

section \<open>Connections are created once\<close>

lemma store_createConnection_twice:
  "store_createConnection a b (store_createConnection a b s) = store_createConnection a b s"
  by (simp add: store_createConnection_def Let_def)

lemma store_createConnection_present:
  "connectionsMap (store_createConnection a b s) (connectionId a b) \<noteq> None"
  by (simp add: store_createConnection_def Let_def)

lemma createConnection_present:
  "map_of (connections (createConnection a b e)) (connectionId a b) \<noteq> None"
  by (simp add: createConnection_def Let_def update_conv')

lemma createConnection_twice:
  "createConnection a b (createConnection a b e) = createConnection a b e"
  using createConnection_present[of a b e] by (subst createConnection_def) (simp add: Let_def)

lemma distinct_update_keys: "distinct (map fst al) \<Longrightarrow> distinct (map fst (AList.update k v al))"
  by (simp add: distinct_update)

lemma count_key_distinct:
  "distinct (map fst al) \<Longrightarrow> map_of al k \<noteq> None \<Longrightarrow> length (filter (\<lambda>kv. fst kv = k) al) = 1"
proof (induction al)
  case Nil
  then show ?case by simp
next
  case (Cons p al)
  show ?case
  proof (cases "fst p = k")
    case True
    from Cons.prems(1) have "fst p \<notin> fst ` set al" by simp
    with True have "\<forall>kv \<in> set al. fst kv \<noteq> k" by blast
    then have "filter (\<lambda>kv. fst kv = k) al = []" by (simp add: filter_empty_conv)
    with True show ?thesis by simp
  next
    case False
    with Cons show ?thesis by (cases p) auto
  qed
qed

lemma createConnection_distinct:
  "distinct (map fst (connections e)) \<Longrightarrow> distinct (map fst (connections (createConnection a b e)))"
  by (simp add: createConnection_def Let_def distinct_update)

text \<open>
  Claim C3.  Calling \<^verbatim>\<open>createConnection(a, b)\<close> a second time changes nothing, neither
  in the scene engine (its connection map and the calls made to the persistence
  collaborator stay as they are) nor in the store, and afterwards exactly one connection is
  filed under the identifier \<open>connectionId a b\<close> made from the ordered pair.  A
  \<^verbatim>\<open>Map\<close> holds a key once; for the association list that models it this is the
  hypothesis.
\<close>

theorem createConnection_idempotent:
  assumes "distinct (map fst (connections e))"
  shows "createConnection a b (createConnection a b e) = createConnection a b e \<and>
         length (filter (\<lambda>kv. fst kv = connectionId a b)
                   (connections (createConnection a b (createConnection a b e)))) = 1 \<and>
         store_createConnection a b (store_createConnection a b s) = store_createConnection a b s \<and>
         connectionsMap (store_createConnection a b s) (connectionId a b) \<noteq> None"
  using count_key_distinct[OF createConnection_distinct[OF assms] createConnection_present, of a b]
  by (simp add: createConnection_twice store_createConnection_twice store_createConnection_present)

theorem createConnection_idempotent_witness:
  "distinct (map fst (connections newCanvasEngine)) \<and>
   createConnection ''a'' ''b'' (createConnection ''a'' ''b'' newCanvasEngine)
     = createConnection ''a'' ''b'' newCanvasEngine \<and>
   connections (createConnection ''a'' ''b'' (createConnection ''a'' ''b'' newCanvasEngine))
     = [(''a-b'', \<lparr>conn_id = ''a-b'', fromId = ''a'', toId = ''b''\<rparr>)]"
  using createConnection_idempotent [of newCanvasEngine "''a''" "''b''" newDocumentStore]
  by (simp add: newCanvasEngine_def createConnection_def connectionId_def Let_def)

section \<open>Removal of a card\<close>

lemma removeCard_keeps_index: "cardQuadtree (removeCard ident e) = cardQuadtree e"
  by (cases "map_of (cards e) ident") (simp_all add: removeCard_def)

text \<open>
  Claim C5 fails on the code.  \<^verbatim>\<open>createCard\<close> files the card in the card index and
  \<^verbatim>\<open>updateCardPosition\<close> re-files it, but \<^verbatim>\<open>removeCard\<close> deletes the runtime entry
  only: after a card is created and removed, directly or by a hydration that no longer
  lists it, a query of the card index at its place still returns its identifier.
\<close>

theorem removeCard_leaves_index_entry:
  "map_of (cards (createCard ''a'' 0 0 '''' newCanvasEngine)) ''a'' \<noteq> None \<and>
   map_of (cards (removeCard ''a'' (createCard ''a'' 0 0 '''' newCanvasEngine))) ''a'' = None \<and>
   retrieve (cardQuadtree (removeCard ''a'' (createCard ''a'' 0 0 '''' newCanvasEngine))) []
      \<lparr>rect_x = 0, rect_y = 0, rect_width = 10, rect_height = 10\<rparr> = [\<lparr>item_id = ''a''\<rparr>] \<and>
   retrieve (cardQuadtree (hydrate [] [] [] (createCard ''a'' 0 0 '''' newCanvasEngine))) []
      \<lparr>rect_x = 0, rect_y = 0, rect_width = 10, rect_height = 10\<rparr> = [\<lparr>item_id = ''a''\<rparr>]"
  by (simp add: createCard_def removeCard_def newCanvasEngine_def newQuadtree_def Let_def
        hydrate_def hydrateCards_def hydrateConnections_def hydrateStrokes_def)

text \<open>
  The stale entry does not surface in \<^verbatim>\<open>getCardsInRect\<close>, which skips candidates
  without a runtime entry.
\<close>

lemma getCardsInRect_skips_removed:
  "getCardsInRect 0 0 10 10 (removeCard ''a'' (createCard ''a'' 0 0 '''' newCanvasEngine)) = []"
  by (simp add: getCardsInRect_def createCard_def removeCard_def newCanvasEngine_def
        newQuadtree_def Let_def)

section \<open>Zoom\<close>

subsection \<open>The error of one rounding\<close>

lemma binadeUp_bounds: "1 \<le> x \<Longrightarrow> 0 < binadeUp x \<and> binadeUp x \<le> x \<and> x < 2 * binadeUp x"
proof (induction x rule: binadeUp.induct)
  case (1 x)
  show ?case
  proof (cases "x < 2")
    case True
    with 1(2) show ?thesis by (simp add: binadeUp.simps)
  next
    case False
    then have "1 \<le> x / 2" by simp
    from 1(1)[OF False this] False show ?thesis by (subst (1 2 3) binadeUp.simps) simp
  qed
qed

lemma binadeDown_bounds: "0 < x \<Longrightarrow> x < 1 \<Longrightarrow> 0 < binadeDown x \<and> binadeDown x \<le> x \<and> x < 2 * binadeDown x"
proof (induction x rule: binadeDown.induct)
  case (1 x)
  have n: "\<not> (x \<le> 0 \<or> 1 \<le> x)" using 1(2,3) by simp
  show ?case
  proof (cases "2 * x < 1")
    case True
    from 1(1)[OF n _ True] 1(2) n show ?thesis by (subst (1 2 3) binadeDown.simps) simp
  next
    case False
    then have "binadeDown (2 * x) = 1" by (simp add: binadeDown.simps)
    with False 1(3) n show ?thesis by (subst (1 2 3) binadeDown.simps) simp
  qed
qed

lemma binade_bounds: "x \<noteq> 0 \<Longrightarrow> 0 < binade x \<and> binade x \<le> \<bar>x\<bar> \<and> \<bar>x\<bar> < 2 * binade x"
  using binadeUp_bounds[of "\<bar>x\<bar>"] binadeDown_bounds[of "\<bar>x\<bar>"] by (simp add: binade_def)

lemma binade_pos: "0 < binade x"
  using binade_bounds[of x] by (cases "x = 0") (simp_all add: binade_def binadeDown.simps)

lemma roundTiesToEven_error: "\<bar>of_int (roundTiesToEven y) - y\<bar> \<le> 1 / 2"
  unfolding roundTiesToEven_def Let_def by (auto; linarith)

lemma fl_error: "\<bar>fl x - x\<bar> \<le> \<bar>x\<bar> / 2 ^ 53 + 1 / 2 ^ 1075"
proof -
  have up: "0 < ulp x" using binade_pos[of x] by (simp add: ulp_def max_def)
  have "fl x - x = (of_int (roundTiesToEven (x / ulp x)) - x / ulp x) * ulp x"
    using up by (simp add: fl_def field_simps)
  then have "\<bar>fl x - x\<bar> = \<bar>of_int (roundTiesToEven (x / ulp x)) - x / ulp x\<bar> * ulp x"
    using up by (simp add: abs_mult)
  also have "\<dots> \<le> 1 / 2 * ulp x"
    using roundTiesToEven_error[of "x / ulp x"] up by (intro mult_right_mono) simp_all
  finally have e: "\<bar>fl x - x\<bar> \<le> ulp x / 2" by simp
  show ?thesis
  proof (cases "binade x \<le> 1 / 2 ^ 1022")
    case True
    then have "ulp x / 2 = 1 / 2 ^ 1075" by (simp add: ulp_def max_def)
    with e have "\<bar>fl x - x\<bar> \<le> 1 / 2 ^ 1075" by (simp only:)
    moreover have "0 \<le> \<bar>x\<bar> / 2 ^ 53" by simp
    ultimately show ?thesis by linarith
  next
    case False
    show ?thesis
    proof (cases "x = 0")
      case True
      then show ?thesis by (simp add: fl_def roundTiesToEven_def)
    next
      case x0: False
    from \<open>\<not> binade x \<le> 1 / 2 ^ 1022\<close> have "ulp x / 2 = binade x / 2 ^ 53" by (simp add: ulp_def max_def)
    also have "\<dots> \<le> \<bar>x\<bar> / 2 ^ 53" using binade_bounds[OF x0] by (simp add: divide_right_mono)
    finally have "ulp x / 2 \<le> \<bar>x\<bar> / 2 ^ 53" .
    moreover have "0 \<le> (1 :: real) / 2 ^ 1075" by simp
    ultimately show ?thesis using e by linarith
    qed
  qed
qed

lemma fl_tenth: "fl (1 / 10) = 3602879701896397 / 36028797018963968"
  by (simp add: fl_def ulp_def binade_def binadeUp.simps binadeDown.simps roundTiesToEven_def Let_def)

lemma wheel_scale_range: "1 / 10 \<le> scale (wheel deltaY mx my v) \<and> scale (wheel deltaY mx my v) \<le> 5"
  by (simp add: wheel_def Let_def fl_tenth max_def min_def)

text \<open>The error of one rounding, from a bound on the magnitude of the exact result.\<close>

lemma fl_bound: "\<bar>x\<bar> \<le> B \<Longrightarrow> \<bar>fl x - x\<bar> \<le> B / 2 ^ 53 + 1 / 2 ^ 1075"
proof -
  assume "\<bar>x\<bar> \<le> B"
  then have "\<bar>x\<bar> / 2 ^ 53 \<le> B / 2 ^ 53" by (simp add: divide_right_mono)
  with fl_error[of x] show ?thesis by linarith
qed

subsection \<open>The point under the pointer\<close>

text \<open>
  The physics tick copies the viewport into the world container, so a world point \<open>w\<close>
  is shown on the screen at \<open>offset + w * scale\<close>, and the world point under a screen
  point \<open>p\<close> is \<open>(p - offset) / scale\<close>; both are computed in double precision.
\<close>

definition worldPoint :: "ViewportState \<Rightarrow> real \<times> real \<Rightarrow> real \<times> real" where
  "worldPoint v p = (fl (fl (fst p - viewport_x v) / scale v), fl (fl (snd p - viewport_y v) / scale v))"

definition screenPoint :: "ViewportState \<Rightarrow> real \<times> real \<Rightarrow> real \<times> real" where
  "screenPoint v w = (fl (viewport_x v + fl (fst w * scale v)), fl (viewport_y v + fl (snd w * scale v)))"

text \<open>
  One coordinate of a zoom step from scale \<open>s\<close> to scale \<open>ns\<close>: \<open>x'\<close> is the new
  offset, \<open>w\<close> the world coordinate under the pointer \<open>m\<close> before the step.  Without
  rounding the new projection \<open>x' + w * ns\<close> is \<open>m\<close>; the seven roundings move it
  by a few units in the last place of the numbers involved.
\<close>

lemma anchor_error:
  fixes m x s ns :: real
  assumes s: "1 / 10 \<le> s" "s \<le> 5" and ns: "1 / 10 \<le> ns" "ns \<le> 5"
  defines "x' \<equiv> fl (m - fl (fl (m - x) * fl (ns / s)))"
    and "w \<equiv> fl (fl (m - x) / s)"
  shows "\<bar>fl (x' + fl (w * ns)) - m\<bar> \<le> (\<bar>m\<bar> + \<bar>m - x\<bar>) / 2 ^ 44 + 1 / 2 ^ 1068"
proof -
  define \<eta> :: real where "\<eta> = 1 / 2 ^ 1075"
  define A where "A = \<bar>m - x\<bar>"
  define M where "M = \<bar>m\<bar>"
  define uA where "uA = A / 9007199254740992"
  define uM where "uM = M / 9007199254740992"
  have eta: "0 < \<eta>" "\<eta> \<le> 1 / 9007199254740992" by (simp_all add: \<eta>_def)
  have A0: "0 \<le> A" and M0: "0 \<le> M" by (simp_all add: A_def M_def)
  have fb: "\<bar>y\<bar> \<le> B \<Longrightarrow> \<bar>fl y - y\<bar> \<le> B / 9007199254740992 + \<eta>" for y B
    using fl_bound[of y B] by (simp add: \<eta>_def)
  define a where "a = m - x"
  define \<rho> where "\<rho> = ns / s"
  define t where "t = fl a"
  define r where "r = fl \<rho>"
  define p where "p = fl (t * r)"
  define q where "q = fl (w * ns)"
  have x': "x' = fl (m - p)" by (simp add: x'_def p_def t_def r_def a_def \<rho>_def)
  have w: "w = fl (t / s)" by (simp add: w_def t_def a_def)
  have aA: "\<bar>a\<bar> = A" by (simp add: a_def A_def)
  have mM: "\<bar>m\<bar> = M" by (simp add: M_def)
  have rho: "0 \<le> \<rho>" "\<rho> \<le> 50"
  proof -
    show "0 \<le> \<rho>" using s ns by (simp add: \<rho>_def)
    have "ns / s \<le> 5 / (1 / 10)" using s ns by (intro frac_le) simp_all
    then show "\<rho> \<le> 50" by (simp add: \<rho>_def)
  qed
  have inv: "0 < 1 / s" "1 / s \<le> 10"
  proof -
    show "0 < 1 / s" using s by simp
    have "1 / s \<le> 1 / (1 / 10)" using s by (intro frac_le) simp_all
    then show "1 / s \<le> 10" by simp
  qed
  have t1: "\<bar>t - a\<bar> \<le> uA + \<eta>" using fb[of a A] aA unfolding t_def uA_def by linarith
  have t2: "\<bar>t\<bar> \<le> A + uA + \<eta>" using t1 aA by linarith
  have r1: "\<bar>r - \<rho>\<bar> \<le> 51 / 9007199254740992" using fb[of \<rho> 50] rho eta unfolding r_def by linarith
  have r2: "\<bar>r\<bar> \<le> 51" using r1 rho by linarith
  have "t * r - a * \<rho> = (t - a) * r + a * (r - \<rho>)" by (simp add: algebra_simps)
  then have "\<bar>t * r - a * \<rho>\<bar> \<le> \<bar>t - a\<bar> * \<bar>r\<bar> + \<bar>a\<bar> * \<bar>r - \<rho>\<bar>"
    by (metis abs_mult abs_triangle_ineq)
  also have "\<dots> \<le> (uA + \<eta>) * 51 + A * (51 / 9007199254740992)"
  proof (rule add_mono)
    show "\<bar>t - a\<bar> * \<bar>r\<bar> \<le> (uA + \<eta>) * 51" using t1 r2 by (intro mult_mono) simp_all
    show "\<bar>a\<bar> * \<bar>r - \<rho>\<bar> \<le> A * (51 / 9007199254740992)"
      unfolding aA by (rule mult_left_mono[OF r1 A0])
  qed
  also have "\<dots> = 102 * uA + 51 * \<eta>" by (simp add: uA_def)
  finally have tr1: "\<bar>t * r - a * \<rho>\<bar> \<le> 102 * uA + 51 * \<eta>" .
  have ar: "\<bar>a * \<rho>\<bar> \<le> 50 * A"
  proof -
    have "\<bar>a * \<rho>\<bar> = A * \<rho>" using rho aA by (simp add: abs_mult)
    also have "\<dots> \<le> A * 50" using rho A0 by (intro mult_left_mono)
    finally show ?thesis by simp
  qed
  have tr2: "\<bar>t * r\<bar> \<le> 50 * A + 102 * uA + 51 * \<eta>" using tr1 ar by linarith
  have uA0: "0 \<le> uA" using A0 by (simp add: uA_def)
  have uM0: "0 \<le> uM" using M0 by (simp add: uM_def)
  have p1: "\<bar>p - t * r\<bar> \<le> 51 * uA + 2 * \<eta>"
    using fb[OF tr2] eta A0 unfolding p_def uA_def by argo
  have p2: "\<bar>p - a * \<rho>\<bar> \<le> 153 * uA + 53 * \<eta>" using p1 tr1 by linarith
  have p3: "\<bar>p\<bar> \<le> 50 * A + 153 * uA + 53 * \<eta>" using p2 ar by linarith
  have "\<bar>m - p\<bar> \<le> M + 50 * A + 153 * uA + 53 * \<eta>" using p3 mM by linarith
  from fb[OF this] have x1: "\<bar>x' - (m - p)\<bar> \<le> uM + 51 * uA + 2 * \<eta>"
    using eta A0 unfolding x' uA_def uM_def by argo
  have x2: "\<bar>x' - (m - a * \<rho>)\<bar> \<le> uM + 204 * uA + 55 * \<eta>" using x1 p2 by linarith
  define c where "c = t / s"
  define d where "d = a / s"
  have wc: "w = fl c" by (simp add: w c_def)
  have ts: "\<bar>c\<bar> \<le> 10 * \<bar>t\<bar>"
  proof -
    have "\<bar>c\<bar> = \<bar>t\<bar> * (1 / s)" using s by (simp add: c_def abs_divide)
    also have "\<dots> \<le> \<bar>t\<bar> * 10" using inv by (intro mult_left_mono) simp_all
    finally show ?thesis by simp
  qed
  have tas: "\<bar>c - d\<bar> \<le> 10 * \<bar>t - a\<bar>"
  proof -
    have "c - d = (t - a) * (1 / s)" by (simp add: c_def d_def diff_divide_distrib)
    then have "\<bar>c - d\<bar> = \<bar>t - a\<bar> * (1 / s)" using inv by (simp add: abs_mult)
    also have "\<dots> \<le> \<bar>t - a\<bar> * 10" using inv by (intro mult_left_mono) simp_all
    finally show ?thesis by simp
  qed
  have "\<bar>c\<bar> \<le> 10 * A + 10 * uA + 10 * \<eta>" using ts t2 by linarith
  from fb[OF this] have w1: "\<bar>w - c\<bar> \<le> 11 * uA + 2 * \<eta>"
    using eta A0 unfolding wc uA_def by argo
  have "\<bar>c - d\<bar> \<le> 10 * uA + 10 * \<eta>" using tas t1 by argo
  with w1 have w2: "\<bar>w - d\<bar> \<le> 21 * uA + 12 * \<eta>" by linarith
  have wn: "\<bar>w * ns - a * \<rho>\<bar> \<le> 105 * uA + 60 * \<eta>"
  proof -
    have "w * ns - a * \<rho> = (w - d) * ns" using s by (simp add: \<rho>_def d_def field_simps)
    then have "\<bar>w * ns - a * \<rho>\<bar> = \<bar>w - d\<bar> * ns" using ns by (simp add: abs_mult)
    also have "\<dots> \<le> (21 * uA + 12 * \<eta>) * 5" using w2 ns by (intro mult_mono) simp_all
    finally show ?thesis by simp
  qed
  have "\<bar>w * ns\<bar> \<le> 50 * A + 105 * uA + 60 * \<eta>" using wn ar by argo
  from fb[OF this] have q1: "\<bar>q - w * ns\<bar> \<le> 51 * uA + 2 * \<eta>"
    using eta A0 unfolding q_def uA_def by argo
  have q2: "\<bar>q - a * \<rho>\<bar> \<le> 156 * uA + 62 * \<eta>" using q1 wn by argo
  have S1: "\<bar>x' + q - m\<bar> \<le> uM + 360 * uA + 117 * \<eta>" using x2 q2 by argo
  have "\<bar>x' + q\<bar> \<le> M + uM + 360 * uA + 117 * \<eta>" using S1 mM by argo
  from fb[OF this] have G1: "\<bar>fl (x' + q) - (x' + q)\<bar> \<le> 2 * uM + uA + 2 * \<eta>"
    using eta A0 M0 unfolding uA_def uM_def by argo
  have G2: "\<bar>fl (x' + q) - m\<bar> \<le> 3 * uM + 361 * uA + 119 * \<eta>" using G1 S1 by argo
  have "3 * uM + 361 * uA \<le> (M + A) / 17592186044416" using A0 M0 unfolding uA_def uM_def by argo
  then have "3 * uM + 361 * uA \<le> (M + A) / 2 ^ 44" by simp
  moreover have "119 * \<eta> \<le> 1 / 2 ^ 1068" by (simp add: \<eta>_def)
  ultimately have "\<bar>fl (x' + q) - m\<bar> \<le> (M + A) / 2 ^ 44 + 1 / 2 ^ 1068" using G2 by argo
  then show ?thesis by (simp only: q_def M_def A_def)
qed

text \<open>
  Claim C7, as amended.  Let the scale of the viewport lie in the clamp range, as it does
  from the start (it is 1) and after every zoom step, and let the coordinates of the
  pointer and the offsets of the viewport be at most \<open>2 ^ 1000\<close> in magnitude, so that
  no operation of the handler overflows.  After a wheel step at pointer position
  \<open>(mx, my)\<close> the world point that was under the pointer is shown at \<open>(mx, my)\<close> up
  to rounding: in each coordinate within \<open>2 ^ -44\<close> times the sum of the magnitudes of
  the pointer coordinate and of its distance from the viewport offset (plus
  \<open>2 ^ -1068\<close> for results in the subnormal range).  The new scale lies between 0.1
  and 5.
\<close>

theorem wheel_anchored_up_to_rounding:
  assumes "1 / 10 \<le> scale v" and "scale v \<le> 5"
    and "\<bar>mx\<bar> \<le> 2 ^ 1000" and "\<bar>my\<bar> \<le> 2 ^ 1000"
    and "\<bar>viewport_x v\<bar> \<le> 2 ^ 1000" and "\<bar>viewport_y v\<bar> \<le> 2 ^ 1000"
  shows "\<bar>fst (screenPoint (wheel deltaY mx my v) (worldPoint v (mx, my))) - mx\<bar>
           \<le> (\<bar>mx\<bar> + \<bar>mx - viewport_x v\<bar>) / 2 ^ 44 + 1 / 2 ^ 1068 \<and>
         \<bar>snd (screenPoint (wheel deltaY mx my v) (worldPoint v (mx, my))) - my\<bar>
           \<le> (\<bar>my\<bar> + \<bar>my - viewport_y v\<bar>) / 2 ^ 44 + 1 / 2 ^ 1068 \<and>
         1 / 10 \<le> scale (wheel deltaY mx my v) \<and> scale (wheel deltaY mx my v) \<le> 5"
proof -
  let ?ns = "scale (wheel deltaY mx my v)"
  have r: "1 / 10 \<le> ?ns" "?ns \<le> 5" using wheel_scale_range[of deltaY mx my v] by simp_all
  have ns: "?ns = max (fl (1 / 10)) (min 5 (fl (scale v * (if deltaY > 0 then fl (9 / 10) else fl (11 / 10)))))"
    by (simp add: wheel_def Let_def)
  have "fst (screenPoint (wheel deltaY mx my v) (worldPoint v (mx, my)))
      = fl (fl (mx - fl (fl (mx - viewport_x v) * fl (?ns / scale v))) + fl (fl (fl (mx - viewport_x v) / scale v) * ?ns))"
    unfolding ns by (simp add: screenPoint_def worldPoint_def wheel_def Let_def)
  moreover have "snd (screenPoint (wheel deltaY mx my v) (worldPoint v (mx, my)))
      = fl (fl (my - fl (fl (my - viewport_y v) * fl (?ns / scale v))) + fl (fl (fl (my - viewport_y v) / scale v) * ?ns))"
    unfolding ns by (simp add: screenPoint_def worldPoint_def wheel_def Let_def)
  ultimately show ?thesis
    using anchor_error[OF assms(1,2) r, of mx "viewport_x v"] anchor_error[OF assms(1,2) r, of my "viewport_y v"] r
    by (simp only:)
qed

text \<open>
  A viewport at scale 1 that has been panned by 10, and a zoom-out step with the pointer at
  \<open>(2, 0)\<close>.
\<close>

definition pannedViewport :: ViewportState where
  "pannedViewport = (viewport newCanvasEngine)\<lparr>viewport_x := 10\<rparr>"

lemma pannedViewport_fields:
  "viewport_x pannedViewport = 10" "viewport_y pannedViewport = 0" "scale pannedViewport = 1"
  by (simp_all add: pannedViewport_def newCanvasEngine_def)

lemma fl_values:
  "fl (9 / 10) = 8106479329266893 / 9007199254740992"
  "fl (8106479329266893 / 9007199254740992) = 8106479329266893 / 9007199254740992"
  "fl (- 8) = - 8"
  "fl 0 = 0"
  "fl 2 = 2"
  "fl (- (8106479329266893 / 1125899906842624)) = - (8106479329266893 / 1125899906842624)"
  "fl (10358279142952141 / 1125899906842624) = 2589569785738035 / 281474976710656"
  "fl (2251799813685247 / 1125899906842624) = 2251799813685247 / 1125899906842624"
  by (simp_all add: fl_def ulp_def binade_def binadeUp.simps binadeDown.simps roundTiesToEven_def)

lemma pannedViewport_wheel:
  "viewport_x (wheel 1 2 0 pannedViewport) = 2589569785738035 / 281474976710656"
  "viewport_y (wheel 1 2 0 pannedViewport) = 0"
  "scale (wheel 1 2 0 pannedViewport) = 8106479329266893 / 9007199254740992"
  by (simp_all add: wheel_def Let_def pannedViewport_fields fl_values fl_tenth)

text \<open>
  The theorem at that step: the bound is \<open>(2 + 8) / 2 ^ 44\<close>, and the scale stored is
  the double nearest to 0.9.
\<close>

theorem wheel_anchored_up_to_rounding_witness:
  "1 / 10 \<le> scale pannedViewport \<and> scale pannedViewport \<le> 5 \<and>
   \<bar>2 :: real\<bar> \<le> 2 ^ 1000 \<and> \<bar>viewport_x pannedViewport\<bar> \<le> 2 ^ 1000 \<and>
   \<bar>fst (screenPoint (wheel 1 2 0 pannedViewport) (worldPoint pannedViewport (2, 0))) - 2\<bar>
     \<le> 10 / 2 ^ 44 + 1 / 2 ^ 1068 \<and>
   scale (wheel 1 2 0 pannedViewport) = 8106479329266893 / 9007199254740992"
  using wheel_anchored_up_to_rounding [of pannedViewport 2 0 1]
  by (simp add: pannedViewport_fields pannedViewport_wheel)

text \<open>
  The claim as first stated has the point shown at exactly \<open>(mx, my)\<close>.  At that
  viewport the pointer at \<open>(2, 0)\<close> is over the world point \<open>(-8, 0)\<close>, which is
  shown at exactly \<open>(2, 0)\<close> before the step.  The step stores the scale
  \<^verbatim>\<open>0.9\<close> and the offset \<^verbatim>\<open>9.2\<close>, each the nearest double, and the point is
  then shown at \<open>2 - 2 ^ -50\<close>, which is \<^verbatim>\<open>1.9999999999999991\<close>.
\<close>

theorem wheel_anchor_not_exact:
  "worldPoint pannedViewport (2, 0) = (- 8, 0) \<and>
   screenPoint pannedViewport (- 8, 0) = (2, 0) \<and>
   screenPoint (wheel 1 2 0 pannedViewport) (- 8, 0) = (2 - 1 / 2 ^ 50, 0) \<and>
   screenPoint (wheel 1 2 0 pannedViewport) (worldPoint pannedViewport (2, 0)) \<noteq> (2, 0)"
  by (simp add: worldPoint_def screenPoint_def pannedViewport_fields pannedViewport_wheel fl_values)

section \<open>Host wiring of the persistence callbacks\<close>

text \<open>
  The application registers the callbacks of the scene engine so that each call becomes a
  store operation: a position change updates the card position, a new connection is
  created in the store, a finished stroke is added with colour \<^verbatim>\<open>0xFFFFFF\<close> and width 2,
  and a deleted stroke is deleted.
\<close>

definition persistCall :: "int \<Rightarrow> Callback \<Rightarrow> DocumentStore \<Rightarrow> DocumentStore" where
  "persistCall now c s =
     (case c of
        PositionChange ident x y \<Rightarrow> store_updateCardPosition now ident x y s
      | ConnectionCreated from to \<Rightarrow> store_createConnection from to s
      | StrokeFinished ident pts \<Rightarrow>
          addStroke \<lparr>strokeData_id = ident, strokeData_points = pts,
                     strokeData_color = 16777215, strokeData_width = 2\<rparr> s
      | StrokeDeleted ident \<Rightarrow> deleteStroke ident s)"

section \<open>Strokes from first point to index\<close>

definition continueAll :: "PointerSamples list \<Rightarrow> CanvasEngine \<Rightarrow> CanvasEngine" where
  "continueAll evs e = foldl (\<lambda>e ev. continueStroke ev e) e evs"

lemma pushPoints_fields [simp]:
  "currentStroke (pushPoints r ps e) = currentStroke e"
  "calls (pushPoints r ps e) = calls e"
  "onStrokeFinished (pushPoints r ps e) = onStrokeFinished e"
  "strokeQuadtree (pushPoints r ps e) = strokeQuadtree e"
  "worldContainer (pushPoints r ps e) = worldContainer e"
  "points (strokeObjects (pushPoints r ps e) r) = points (strokeObjects e r) @ ps"
  "stroke_id (strokeObjects (pushPoints r ps e) r) = stroke_id (strokeObjects e r)"
  by (simp_all add: pushPoints_def)

lemma foldl_pushPoints_fields:
  "currentStroke (foldl (\<lambda>e p. pushPoints r (f e p) e) e ps) = currentStroke e \<and>
   calls (foldl (\<lambda>e p. pushPoints r (f e p) e) e ps) = calls e \<and>
   onStrokeFinished (foldl (\<lambda>e p. pushPoints r (f e p) e) e ps) = onStrokeFinished e \<and>
   strokeQuadtree (foldl (\<lambda>e p. pushPoints r (f e p) e) e ps) = strokeQuadtree e \<and>
   stroke_id (strokeObjects (foldl (\<lambda>e p. pushPoints r (f e p) e) e ps) r) = stroke_id (strokeObjects e r) \<and>
   (points (strokeObjects e r) \<noteq> [] \<longrightarrow>
      points (strokeObjects (foldl (\<lambda>e p. pushPoints r (f e p) e) e ps) r) \<noteq> [])"
  by (induction ps arbitrary: e) simp_all

lemma continueStroke_keeps:
  assumes "currentStroke e = Some r" and "points (strokeObjects e r) \<noteq> []"
  shows "currentStroke (continueStroke ev e) = Some r \<and>
         points (strokeObjects (continueStroke ev e) r) \<noteq> [] \<and>
         calls (continueStroke ev e) = calls e \<and>
         onStrokeFinished (continueStroke ev e) = onStrokeFinished e \<and>
         strokeQuadtree (continueStroke ev e) = strokeQuadtree e \<and>
         stroke_id (strokeObjects (continueStroke ev e) r) = stroke_id (strokeObjects e r)"
proof (cases ev)
  case (Coalesced coalesced)
  have "(\<lambda>e p. case p of (clientX, clientY, pr) \<Rightarrow>
            (let localPos = toLocal (worldContainer e) (clientX, clientY)
             in pushPoints r [(fst localPos, snd localPos, orDefault pr (5 / 10))] e))
      = (\<lambda>e p. pushPoints r
            [(fst (toLocal (worldContainer e) (fst p, fst (snd p))),
              snd (toLocal (worldContainer e) (fst p, fst (snd p))),
              orDefault (snd (snd p)) (5 / 10))] e)"
    by (auto simp: fun_eq_iff Let_def)
  with assms Coalesced show ?thesis
    using foldl_pushPoints_fields[of r _ e coalesced]
    by (simp add: continueStroke_def)
next
  case (Fallback g pr)
  with assms show ?thesis by (simp add: continueStroke_def Let_def)
qed

lemma startStroke_fields:
  "currentStroke (startStroke g pr sid e) = Some (nextStrokeObject e) \<and>
   points (strokeObjects (startStroke g pr sid e) (nextStrokeObject e))
     = [(fst (toLocal (worldContainer e) g), snd (toLocal (worldContainer e) g), orDefault pr (5 / 10))] \<and>
   stroke_id (strokeObjects (startStroke g pr sid e) (nextStrokeObject e)) = sid \<and>
   calls (startStroke g pr sid e) = calls e \<and>
   onStrokeFinished (startStroke g pr sid e) = onStrokeFinished e \<and>
   strokeQuadtree (startStroke g pr sid e) = strokeQuadtree e"
  by (simp add: startStroke_def Let_def)

lemma stroke_in_progress:
  "currentStroke (continueAll evs (startStroke g pr sid e)) = Some (nextStrokeObject e) \<and>
   points (strokeObjects (continueAll evs (startStroke g pr sid e)) (nextStrokeObject e)) \<noteq> [] \<and>
   stroke_id (strokeObjects (continueAll evs (startStroke g pr sid e)) (nextStrokeObject e)) = sid \<and>
   calls (continueAll evs (startStroke g pr sid e)) = calls e \<and>
   onStrokeFinished (continueAll evs (startStroke g pr sid e)) = onStrokeFinished e \<and>
   strokeQuadtree (continueAll evs (startStroke g pr sid e)) = strokeQuadtree e"
proof (induction evs rule: rev_induct)
  case Nil
  show ?case using startStroke_fields[of g pr sid e] by (simp add: continueAll_def)
next
  case (snoc ev evs)
  let ?e = "continueAll evs (startStroke g pr sid e)"
  have "continueAll (evs @ [ev]) (startStroke g pr sid e) = continueStroke ev ?e"
    by (simp add: continueAll_def)
  with snoc continueStroke_keeps[of ?e "nextStrokeObject e" ev] show ?case by simp
qed

lemma getStrokeBounds_nonempty: "points s \<noteq> [] \<Longrightarrow> getStrokeBounds s \<noteq> None"
  by (cases "points s") (simp_all add: getStrokeBounds_def Let_def)

text \<open>
  Claim C10.  When \<^verbatim>\<open>endStroke\<close> is called on a stroke in progress (which always holds
  the point it was started with), it returns normally, and the stroke it then reports to
  the persistence collaborator and files in the stroke index has at least two points: a
  stroke of one point first receives a second one, offset by \<open>(0.1, 0.1)\<close> and with the
  same pressure.  The record the host then adds to the store carries these points.
\<close>

theorem endStroke_at_least_two_points:
  assumes "currentStroke e = Some r" and "points (strokeObjects e r) \<noteq> []"
    and "onStrokeFinished e"
  shows "\<exists>e' pts b. endStroke e = Inr e' \<and>
           2 \<le> length pts \<and>
           points (strokeObjects e' r) = pts \<and>
           calls e' = calls e @ [StrokeFinished (stroke_id (strokeObjects e r)) pts] \<and>
           strokesMap (persistCall now (last (calls e')) s) (stroke_id (strokeObjects e r))
             = Some \<lparr>strokeData_id = stroke_id (strokeObjects e r), strokeData_points = pts,
                      strokeData_color = 16777215, strokeData_width = 2\<rparr> \<and>
           strokeQuadtree e'
             = insertQ (strokeQuadtree e) \<lparr>item_id = stroke_id (strokeObjects e r), stroke = r\<rparr> b \<and>
           (\<lparr>item_id = stroke_id (strokeObjects e r), stroke = r\<rparr>, b) \<in> set (entries (strokeQuadtree e')) \<and>
           currentStroke e' = None \<and>
           (if length (points (strokeObjects e r)) = 1
            then pts = points (strokeObjects e r) @
                   [(fst (hd (points (strokeObjects e r))) + 1 / 10,
                     fst (snd (hd (points (strokeObjects e r)))) + 1 / 10,
                     snd (snd (hd (points (strokeObjects e r)))))]
            else pts = points (strokeObjects e r))"
proof (cases "length (points (strokeObjects e r)) < 2")
  case True
  with assms(2) obtain p where p: "points (strokeObjects e r) = [p]"
    by (cases "points (strokeObjects e r)") auto
  let ?q = "(fst p + 1 / 10, fst (snd p) + 1 / 10, snd (snd p))"
  let ?e1 = "pushPoints r [?q] e"
  have "points (strokeObjects ?e1 r) \<noteq> []" by simp
  then obtain b where b: "getStrokeBounds (strokeObjects ?e1 r) = Some b"
    using getStrokeBounds_nonempty by blast
  from p b assms(1,3) have
    "endStroke e = Inr ((?e1\<lparr>calls := calls ?e1 @ [StrokeFinished (stroke_id (strokeObjects ?e1 r)) (points (strokeObjects ?e1 r))]\<rparr>)
        \<lparr>strokeQuadtree := insertQ (strokeQuadtree ?e1) \<lparr>item_id = stroke_id (strokeObjects ?e1 r), stroke = r\<rparr> b,
          currentStroke := None\<rparr>)"
    by (simp add: endStroke_def Let_def)
  with p show ?thesis
    by (simp add: persistCall_def addStroke_def entries_insertQ_redistribute(1) pushPoints_def) blast
next
  case False
  obtain b where b: "getStrokeBounds (strokeObjects e r) = Some b"
    using getStrokeBounds_nonempty[OF assms(2)] by blast
  from False b assms(1,3) have
    "endStroke e = Inr ((e\<lparr>calls := calls e @ [StrokeFinished (stroke_id (strokeObjects e r)) (points (strokeObjects e r))]\<rparr>)
        \<lparr>strokeQuadtree := insertQ (strokeQuadtree e) \<lparr>item_id = stroke_id (strokeObjects e r), stroke = r\<rparr> b,
          currentStroke := None\<rparr>)"
    by (simp add: endStroke_def Let_def)
  with False show ?thesis
    by (simp add: persistCall_def addStroke_def entries_insertQ_redistribute(1)) blast
qed

text \<open>
  The theorem at a single tap: a stroke is started at \<open>(10, 10)\<close> and ended at once.  By
  \<open>stroke_in_progress\<close> every stroke that was started and continued any number of times
  meets the hypotheses in the same way.
\<close>

definition tapEngine :: CanvasEngine where
  "tapEngine = startStroke (10, 10) 0 ''s1'' (setPersistenceCallbacks newCanvasEngine)"

theorem endStroke_at_least_two_points_witness:
  "currentStroke tapEngine = Some 0 \<and> points (strokeObjects tapEngine 0) \<noteq> [] \<and>
   onStrokeFinished tapEngine \<and>
   (\<exists>e'. endStroke tapEngine = Inr e' \<and>
      calls e' = [StrokeFinished ''s1'' [(10, 10, 1 / 2), (101 / 10, 101 / 10, 1 / 2)]])"
proof -
  have h: "currentStroke tapEngine = Some 0" "points (strokeObjects tapEngine 0) = [(10, 10, 1 / 2)]"
    "onStrokeFinished tapEngine" "calls tapEngine = []" "stroke_id (strokeObjects tapEngine 0) = ''s1''"
    by (simp_all add: tapEngine_def startStroke_def setPersistenceCallbacks_def newCanvasEngine_def
          toLocal_def orDefault_def Let_def)
  from endStroke_at_least_two_points [of tapEngine 0 0 newDocumentStore] h
  show ?thesis by auto
qed

section \<open>The connecting gesture\<close>

lemma createConnection_fresh:
  "map_of (connections e) (connectionId a b) = None \<Longrightarrow>
   connections (createConnection a b e)
     = connections e @ [(connectionId a b, \<lparr>conn_id = connectionId a b, fromId = a, toId = b\<rparr>)]"
proof -
  assume n: "map_of (connections e) (connectionId a b) = None"
  have "AList.update k v al = al @ [(k, v)]" if "map_of al k = None" for al :: "(string \<times> Connection) list" and k v
    using that by (induction al) (auto split: if_splits)
  with n show ?thesis by (simp add: createConnection_def Let_def)
qed

lemma createConnection_existing:
  "map_of (connections e) (connectionId a b) \<noteq> None \<Longrightarrow> createConnection a b e = e"
  by (simp add: createConnection_def Let_def)

definition plainClick :: PointerEvent where
  "plainClick = \<lparr>globalX = 0, globalY = 0, pressure = 0, shiftKey = False, button = 0\<rparr>"

text \<open>
  Claim C9, as amended.  In Connecting mode, with the space bar up, a pointer-down on card
  \<open>a\<close> that is not the second click of a double click records \<open>a\<close> as the pending
  source and stays in Connecting mode.  A pointer-up on another card \<open>b\<close> then calls
  \<^verbatim>\<open>createConnection(a, b)\<close> on the engine and clears the pending source: the connection
  is appended when it did not exist, and nothing changes when it did.  A pointer-up on
  \<open>a\<close> itself clears the pending source and leaves the engine alone.
\<close>

theorem connecting_gesture:
  assumes "mode m = CONNECTING" and "\<not> isSpacePressed m"
    and "\<not> (lastClickedCardId m = Some a \<and> now - lastClickTime m < 500)"
    and "a \<noteq> ''''" and "a \<noteq> b" and "engine m = Some e"
  shows "connectionStartId (handleCardDown ev a now m) = Some a \<and>
         mode (handleCardDown ev a now m) = CONNECTING \<and>
         engine (handleCardDown ev a now m) = Some e \<and>
         handleCardUp b (handleCardDown ev a now m)
           = (handleCardDown ev a now m)\<lparr>engine := Some (createConnection a b e), connectionStartId := None\<rparr> \<and>
         (if map_of (connections e) (connectionId a b) = None
          then connections (createConnection a b e)
                 = connections e @ [(connectionId a b, \<lparr>conn_id = connectionId a b, fromId = a, toId = b\<rparr>)]
          else createConnection a b e = e) \<and>
         handleCardUp a (handleCardDown ev a now m)
           = (handleCardDown ev a now m)\<lparr>connectionStartId := None\<rparr>"
proof -
  let ?m = "handleCardDown ev a now m"
  have d: "connectionStartId ?m = Some a \<and> mode ?m = CONNECTING \<and> engine ?m = Some e"
    using assms by (auto simp: handleCardDown_def Let_def selectCard_def deselectAll_def)
  then have u1: "handleCardUp b ?m = ?m\<lparr>engine := Some (createConnection a b e), connectionStartId := None\<rparr>"
    using assms(4,5) by (simp add: handleCardUp_def Let_def)
  from d have u2: "handleCardUp a ?m = ?m\<lparr>connectionStartId := None\<rparr>"
    using assms(4) by (simp add: handleCardUp_def Let_def)
  show ?thesis
    using d u1 u2 createConnection_fresh[of e a b] createConnection_existing[of e a b]
    by simp
qed

text \<open>The theorem for a first click on card \<open>a\<close> and a release on card \<open>b\<close>.\<close>

definition connectingManager :: InteractionManager where
  "connectingManager = setMode CONNECTING (setEngine newCanvasEngine newInteractionManager)"

theorem connecting_gesture_witness:
  "mode connectingManager = CONNECTING \<and> \<not> isSpacePressed connectingManager \<and>
   \<not> (lastClickedCardId connectingManager = Some ''a'' \<and> 1000 - lastClickTime connectingManager < 500) \<and>
   ''a'' \<noteq> '''' \<and> ''a'' \<noteq> ''b'' \<and> engine connectingManager = Some newCanvasEngine \<and>
   connectionStartId (handleCardDown plainClick ''a'' 1000 connectingManager) = Some ''a'' \<and>
   map_option connections (engine (handleCardUp ''b'' (handleCardDown plainClick ''a'' 1000 connectingManager)))
     = Some [(''a-b'', \<lparr>conn_id = ''a-b'', fromId = ''a'', toId = ''b''\<rparr>)] \<and>
   connectionStartId (handleCardUp ''b'' (handleCardDown plainClick ''a'' 1000 connectingManager)) = None"
proof -
  have h: "mode connectingManager = CONNECTING" "\<not> isSpacePressed connectingManager"
    "\<not> (lastClickedCardId connectingManager = Some ''a'' \<and> 1000 - lastClickTime connectingManager < 500)"
    "engine connectingManager = Some newCanvasEngine"
    by (simp_all add: connectingManager_def setMode_def setEngine_def newInteractionManager_def)
  have c: "connections (createConnection ''a'' ''b'' newCanvasEngine)
      = [(''a-b'', \<lparr>conn_id = ''a-b'', fromId = ''a'', toId = ''b''\<rparr>)]"
    by (simp add: createConnection_def newCanvasEngine_def connectionId_def Let_def)
  from connecting_gesture [of connectingManager "''a''" 1000 "''b''" newCanvasEngine plainClick] h c
  show ?thesis by simp
qed

text \<open>
  Two ways in which the claim as first stated fails.  In Connecting mode a second
  pointer-down on the same card within 500 ms is taken as a double click: the mode becomes
  Editing and no source is recorded.  And a pointer-up on empty canvas reaches only
  \<^verbatim>\<open>handleGlobalUp\<close>, which acts in Selecting mode alone, so the pending source stays.
\<close>

theorem connecting_claim_counterexample:
  "mode (handleCardUp ''a'' (handleCardDown plainClick ''a'' 1000 connectingManager)) = CONNECTING \<and>
   mode (handleCardDown plainClick ''a'' 1200
          (handleCardUp ''a'' (handleCardDown plainClick ''a'' 1000 connectingManager))) = EDITING \<and>
   connectionStartId (handleCardDown plainClick ''a'' 1200
          (handleCardUp ''a'' (handleCardDown plainClick ''a'' 1000 connectingManager))) = None \<and>
   connectionStartId (handleGlobalUp (handleCardDown plainClick ''a'' 1000 connectingManager)) = Some ''a''"
  by (simp add: connectingManager_def setMode_def setEngine_def newInteractionManager_def
        handleCardDown_def handleCardUp_def handleGlobalUp_def plainClick_def selectCard_def
        deselectAll_def Let_def)

text \<open>
  The double click in general: whatever the mode, with the space bar up, a pointer-down on
  the card clicked last, less than 500 ms after that click, switches to Editing and leaves
  the pending source and the engine as they were.
\<close>

lemma double_click_starts_editing:
  assumes "\<not> isSpacePressed m" and "lastClickedCardId m = Some a" and "now - lastClickTime m < 500"
  shows "mode (handleCardDown ev a now m) = EDITING \<and>
         connectionStartId (handleCardDown ev a now m) = connectionStartId m \<and>
         engine (handleCardDown ev a now m) = engine m"
  using assms by (simp add: handleCardDown_def setMode_def Let_def)

section \<open>Hydration of existing cards\<close>

text \<open>
  What one incoming record does to the runtime entry of a card that already exists: the
  target moves unless the card is being dragged, and the text is replaced.
\<close>

definition hydrateEntry :: "CardEntry \<Rightarrow> CardData \<Rightarrow> CardEntry" where
  "hydrateEntry c d =
     c\<lparr>state := (if isDragging (state c) then state c
                  else (state c)\<lparr>targetX := card_x d, targetY := card_y d\<rparr>),
       graphics := (graphics c)\<lparr>textNode := card_text d\<rparr>\<rparr>"

definition hydrateStep :: "CanvasEngine \<Rightarrow> CardData \<Rightarrow> CanvasEngine" where
  "hydrateStep e c =
     (case map_of (cards e) (card_id c) of
        None \<Rightarrow> createCard (card_id c) (card_x c) (card_y c) (card_text c) e
      | Some existing \<Rightarrow>
          updateCardText (card_id c) (card_text c)
            (if \<not> isDragging (state existing)
             then updateCardPosition (card_id c) (card_x c) (card_y c) e else e))"

lemma removeCard_lookup:
  "map_of (cards (removeCard i e)) k = (if k = i then None else map_of (cards e) k)"
  by (cases "map_of (cards e) i") (auto simp: removeCard_def delete_conv')

lemma remove_absent_lookup:
  "map_of (cards (foldl (\<lambda>e i. if i \<notin> S then removeCard i e else e) e ids)) k
     = (if k \<in> set ids \<and> k \<notin> S then None else map_of (cards e) k)"
  by (induction ids arbitrary: e) (auto simp: removeCard_lookup)

lemma createCard_lookup_other:
  "k \<noteq> i \<Longrightarrow> map_of (cards (createCard i x y t e)) k = map_of (cards e) k"
  by (simp add: createCard_def Let_def update_conv')

lemma updateCardPosition_lookup:
  "map_of (cards (updateCardPosition i x y e)) k =
     (if k = i then
        (case map_of (cards e) i of
           None \<Rightarrow> None
         | Some c \<Rightarrow> Some (if isDragging (state c) then c
                           else c\<lparr>state := (state c)\<lparr>targetX := x, targetY := y\<rparr>\<rparr>))
      else map_of (cards e) k)"
  by (cases "map_of (cards e) i") (auto simp: updateCardPosition_def update_conv')

lemma updateCardText_lookup:
  "map_of (cards (updateCardText i t e)) k =
     (if k = i then
        (case map_of (cards e) i of
           None \<Rightarrow> None
         | Some c \<Rightarrow> Some (c\<lparr>graphics := (graphics c)\<lparr>textNode := t\<rparr>\<rparr>))
      else map_of (cards e) k)"
  by (cases "map_of (cards e) i") (auto simp: updateCardText_def update_conv')

lemma hydrateStep_lookup:
  assumes "map_of (cards e) k = Some c"
  shows "map_of (cards (hydrateStep e d)) k = Some (if card_id d = k then hydrateEntry c d else c)"
proof (cases "card_id d = k")
  case True
  with assms show ?thesis
    by (simp add: hydrateStep_def updateCardText_lookup updateCardPosition_lookup hydrateEntry_def)
next
  case False
  with assms show ?thesis
    by (cases "map_of (cards e) (card_id d)")
       (simp_all add: hydrateStep_def updateCardText_lookup updateCardPosition_lookup
          createCard_lookup_other)
qed

lemma hydrateSteps_lookup:
  assumes "map_of (cards e) k = Some c"
  shows "map_of (cards (foldl hydrateStep e ds)) k
           = Some (foldl hydrateEntry c (filter (\<lambda>d. card_id d = k) ds))"
  using assms
proof (induction ds arbitrary: e c)
  case Nil
  then show ?case by simp
next
  case (Cons d ds)
  from hydrateStep_lookup[OF Cons.prems, of d]
  have "map_of (cards (hydrateStep e d)) k = Some (if card_id d = k then hydrateEntry c d else c)" .
  from Cons.IH[OF this] show ?case by simp
qed

lemma hydrateCards_unfold:
  "hydrateCards cs e =
     foldl hydrateStep
       (foldl (\<lambda>e i. if i \<notin> set (map card_id cs) then removeCard i e else e) e (map fst (cards e))) cs"
proof -
  have "hydrateStep = (\<lambda>e c. case map_of (cards e) (card_id c) of
                    None \<Rightarrow> createCard (card_id c) (card_x c) (card_y c) (card_text c) e
                  | Some existing \<Rightarrow>
                      updateCardText (card_id c) (card_text c)
                        (if \<not> isDragging (state existing)
                         then updateCardPosition (card_id c) (card_x c) (card_y c) e else e))"
    by (simp add: fun_eq_iff hydrateStep_def)
  then show ?thesis by (simp add: hydrateCards_def Let_def)
qed

lemma hydrateEntries_props:
  "state (foldl hydrateEntry c ds)
     = (state c)\<lparr>targetX := targetX (state (foldl hydrateEntry c ds)),
                  targetY := targetY (state (foldl hydrateEntry c ds))\<rparr> \<and>
   (isDragging (state c) \<longrightarrow> state (foldl hydrateEntry c ds) = state c) \<and>
   graphics_x (graphics (foldl hydrateEntry c ds)) = graphics_x (graphics c) \<and>
   graphics_y (graphics (foldl hydrateEntry c ds)) = graphics_y (graphics c) \<and>
   cursor (graphics (foldl hydrateEntry c ds)) = cursor (graphics c) \<and>
   (ds \<noteq> [] \<longrightarrow> textNode (graphics (foldl hydrateEntry c ds)) = card_text (last ds)) \<and>
   (ds \<noteq> [] \<and> \<not> isDragging (state c) \<longrightarrow>
      targetX (state (foldl hydrateEntry c ds)) = card_x (last ds) \<and>
      targetY (state (foldl hydrateEntry c ds)) = card_y (last ds))"
proof (induction ds rule: rev_induct)
  case Nil
  show ?case by simp
next
  case (snoc d ds)
  then show ?case by (auto simp: hydrateEntry_def)
qed

lemma cards_hydrateConnections [simp]: "cards (hydrateConnections cs e) = cards e"
proof -
  have a: "cards (foldl (\<lambda>e i. if i \<notin> S then e\<lparr>connections := AList.delete i (connections e)\<rparr> else e) e ids) = cards e"
    for S ids and e :: CanvasEngine
    by (induction ids arbitrary: e) auto
  have b: "cards (foldl (\<lambda>e c. if map_of (connections e) (connection_id c) = None
                  then e\<lparr>connections := AList.update (connection_id c)
                          \<lparr>conn_id = connection_id c, fromId = connection_fromId c, toId = connection_toId c\<rparr>
                          (connections e)\<rparr>
                  else e) e cs) = cards e" for cs and e :: CanvasEngine
    by (induction cs arbitrary: e) auto
  show ?thesis by (simp add: hydrateConnections_def Let_def a b)
qed

lemma cards_hydrateStrokes [simp]: "cards (hydrateStrokes ss e) = cards e"
proof -
  have b: "cards (foldl (\<lambda>e s.
                  if strokeData_id s \<notin> X then
                    (let r = nextStrokeObject e in
                     e\<lparr>strokeObjects := (strokeObjects e)(r := \<lparr>points = strokeData_points s, stroke_id = strokeData_id s\<rparr>),
                       nextStrokeObject := Suc r,
                       strokes := strokes e @ [r]\<rparr>)
                  else e) e ss) = cards e" for X ss and e :: CanvasEngine
    by (induction ss arbitrary: e) (auto simp: Let_def)
  show ?thesis by (simp add: hydrateStrokes_def Let_def b)
qed

text \<open>
  Claim C2, as amended.  Let a card with identifier \<open>ident\<close> exist in the scene.  A
  hydration whose snapshot does not list the card removes it.  Otherwise the card stays,
  and of its physics state only the target may have changed: position, velocity, drag flag
  and drag offset, and the position of its graphics, are what they were.  If the card is
  being dragged, its whole physics state, target included, is unchanged; if it is not, the
  target is the position in the (last) incoming record of that card.  In both cases the
  text of the card is replaced by the incoming text.
\<close>

theorem hydrate_existing_card:
  assumes "map_of (cards e) ident = Some c"
  shows "(ident \<notin> set (map card_id cs) \<longrightarrow> map_of (cards (hydrate cs conns ss e)) ident = None) \<and>
         (ident \<in> set (map card_id cs) \<longrightarrow>
            (\<exists>c'. map_of (cards (hydrate cs conns ss e)) ident = Some c' \<and>
               state c' = (state c)\<lparr>targetX := targetX (state c'), targetY := targetY (state c')\<rparr> \<and>
               graphics_x (graphics c') = graphics_x (graphics c) \<and>
               graphics_y (graphics c') = graphics_y (graphics c) \<and>
               textNode (graphics c') = card_text (last (filter (\<lambda>d. card_id d = ident) cs)) \<and>
               (isDragging (state c) \<longrightarrow> state c' = state c) \<and>
               (\<not> isDragging (state c) \<longrightarrow>
                  targetX (state c') = card_x (last (filter (\<lambda>d. card_id d = ident) cs)) \<and>
                  targetY (state c') = card_y (last (filter (\<lambda>d. card_id d = ident) cs)))))"
proof -
  let ?e1 = "foldl (\<lambda>e i. if i \<notin> set (map card_id cs) then removeCard i e else e) e (map fst (cards e))"
  let ?ds = "filter (\<lambda>d. card_id d = ident) cs"
  have keys: "ident \<in> set (map fst (cards e))"
    using assms by (metis map_of_eq_None_iff option.distinct(1) set_map)
  have c: "cards (hydrate cs conns ss e) = cards (foldl hydrateStep ?e1 cs)"
    by (simp add: hydrate_def hydrateCards_unfold)
  show ?thesis
  proof (cases "ident \<in> set (map card_id cs)")
    case False
    have e1: "map_of (cards ?e1) ident = None"
      using keys False by (simp add: remove_absent_lookup)
    have "map_of (cards (foldl hydrateStep e' ds)) ident = None"
      if "map_of (cards e') ident = None" "ident \<notin> set (map card_id ds)" for e' ds
      using that
    proof (induction ds arbitrary: e')
      case Nil
      then show ?case by simp
    next
      case (Cons d ds)
      have "map_of (cards (hydrateStep e' d)) ident = None"
        using Cons.prems
        by (cases "map_of (cards e') (card_id d)")
           (simp_all add: hydrateStep_def updateCardText_lookup updateCardPosition_lookup
              createCard_lookup_other)
      from Cons.IH[OF this] Cons.prems(2) show ?case by simp
    qed
    from this[OF e1 False] False c show ?thesis by simp
  next
    case True
    have e1: "map_of (cards ?e1) ident = Some c"
      using assms True by (simp add: remove_absent_lookup)
    have ne: "?ds \<noteq> []" using True by (auto simp: filter_empty_conv)
    from hydrateSteps_lookup[OF e1, of cs] c
    have "map_of (cards (hydrate cs conns ss e)) ident = Some (foldl hydrateEntry c ?ds)" by simp
    with True ne hydrateEntries_props[of c ?ds] show ?thesis by auto
  qed
qed

text \<open>
  A card at the origin, picked up at the origin, and a snapshot that moves it to
  \<open>(500, 500)\<close> with a new text.
\<close>

definition draggedEngine :: CanvasEngine where
  "draggedEngine = startDrag (0, 0) ''a'' None (createCard ''a'' 0 0 ''old'' newCanvasEngine)"

definition movedCard :: CardData where
  "movedCard = \<lparr>card_id = ''a'', card_x = 500, card_y = 500, card_width = 200, card_height = 150,
      card_color = 0, card_text = ''new'', card_imageUrl = None, createdAt = 1, updatedAt = 2\<rparr>"

definition draggedEntry :: CardEntry where
  "draggedEntry =
     \<lparr>graphics = \<lparr>graphics_x = 0, graphics_y = 0, cursor = ''grabbing'', textNode = ''old''\<rparr>,
      state = \<lparr>state_x = 0, state_y = 0, state_vx = 0, state_vy = 0, targetX = 0, targetY = 0,
               isDragging = True, dragOffsetX = 0, dragOffsetY = 0, cardId = ''a''\<rparr>\<rparr>"

lemma draggedEngine_cards: "cards draggedEngine = [(''a'', draggedEntry)]"
  by (simp add: draggedEngine_def startDrag_def createCard_def newCanvasEngine_def toLocal_def
        Let_def draggedEntry_def)

theorem hydrate_existing_card_witness:
  "map_of (cards draggedEngine) ''a'' = Some draggedEntry \<and>
   (\<exists>c'. map_of (cards (hydrate [movedCard] [] [] draggedEngine)) ''a'' = Some c' \<and>
      state c' = state draggedEntry \<and> textNode (graphics c') = ''new'')"
  using hydrate_existing_card [of draggedEngine "''a''" draggedEntry "[movedCard]" "[]" "[]"]
  by (auto simp: draggedEngine_cards movedCard_def draggedEntry_def)

text \<open>
  The claim as first stated has the incoming update ignored entirely while the card is
  dragged.  The position is ignored, the text is not.
\<close>

theorem hydrate_dragged_card_changes_text:
  "map_option (isDragging \<circ> state) (map_of (cards draggedEngine) ''a'') = Some True \<and>
   map_option (textNode \<circ> graphics) (map_of (cards draggedEngine) ''a'') = Some ''old'' \<and>
   map_option (textNode \<circ> graphics) (map_of (cards (hydrate [movedCard] [] [] draggedEngine)) ''a'')
     = Some ''new''"
  by (simp add: draggedEngine_cards draggedEntry_def hydrate_def hydrateCards_def
        hydrateConnections_def hydrateStrokes_def movedCard_def updateCardText_def
        updateCardPosition_def Let_def draggedEngine_def startDrag_def createCard_def
        newCanvasEngine_def toLocal_def)

section \<open>Settling of a card\<close>

text \<open>
  A card that is not dragged is moved by \<open>tickCard\<close> once per frame.  With the constants
  of \<^verbatim>\<open>PHYSICS_CONFIG\<close> one tick maps the offset \<open>d\<close> from the target and the velocity
  \<open>v\<close> to \<open>v' = 23/25 * (v - d/15)\<close> and \<open>d' = d + v'\<close>.  The quadratic form
  \<open>settleEnergy\<close> shrinks by exactly the friction factor with each tick.
\<close>

definition settleEnergy :: "real \<Rightarrow> real \<Rightarrow> real" where
  "settleEnergy d v = 23 / 375 * d\<^sup>2 + 7 / 375 * d * v + 23 / 25 * v\<^sup>2"

definition energyX :: "PhysicsState \<Rightarrow> real" where
  "energyX st = settleEnergy (state_x st - targetX st) (state_vx st)"

definition energyY :: "PhysicsState \<Rightarrow> real" where
  "energyY st = settleEnergy (state_y st - targetY st) (state_vy st)"

definition settlingCard :: CardEntry where
  "settlingCard =
     \<lparr>graphics = \<lparr>graphics_x = 0, graphics_y = 0, cursor = ''grab'', textNode = ''''\<rparr>,
      state = \<lparr>state_x = 0, state_y = 0, state_vx = 0, state_vy = 0, targetX = 100, targetY = 100,
               isDragging = False, dragOffsetX = 0, dragOffsetY = 0, cardId = ''a''\<rparr>\<rparr>"

lemma tickState_fields [simp]:
  "targetX (tickState st) = targetX st" "targetY (tickState st) = targetY st"
  "isDragging (tickState st) = isDragging st"
  "state_vx (tickState st) = 23 / 25 * (state_vx st - (state_x st - targetX st) / 15)"
  "state_vy (tickState st) = 23 / 25 * (state_vy st - (state_y st - targetY st) / 15)"
  "state_x (tickState st) = state_x st + 23 / 25 * (state_vx st - (state_x st - targetX st) / 15)"
  "state_y (tickState st) = state_y st + 23 / 25 * (state_vy st - (state_y st - targetY st) / 15)"
  by (simp_all add: tickState_def PHYSICS_CONFIG_def Let_def field_simps)

lemma settleEnergy_step:
  "settleEnergy (d + 23 / 25 * (v - d / 15)) (23 / 25 * (v - d / 15)) = 23 / 25 * settleEnergy d v"
  by (simp add: settleEnergy_def power2_eq_square field_simps)

lemma energy_tick:
  "energyX (tickState st) = 23 / 25 * energyX st" "energyY (tickState st) = 23 / 25 * energyY st"
  using settleEnergy_step[of "state_x st - targetX st" "state_vx st"]
        settleEnergy_step[of "state_y st - targetY st" "state_vy st"]
  by (simp_all add: energyX_def energyY_def add_diff_eq diff_add_eq)

lemma energy_ticks:
  "energyX ((tickState ^^ n) st) = (23 / 25) ^ n * energyX st \<and>
   energyY ((tickState ^^ n) st) = (23 / 25) ^ n * energyY st \<and>
   targetX ((tickState ^^ n) st) = targetX st \<and> targetY ((tickState ^^ n) st) = targetY st \<and>
   isDragging ((tickState ^^ n) st) = isDragging st"
  by (induction n) (simp_all add: energy_tick)

lemma state_tickCard: "\<not> isDragging (state c) \<Longrightarrow> state (tickCard c) = tickState (state c)"
  by (simp add: tickCard_def Let_def)

lemma tickCard_ticks:
  "\<not> isDragging (state c) \<Longrightarrow> state ((tickCard ^^ n) c) = (tickState ^^ n) (state c)"
proof (induction n)
  case 0
  show ?case by simp
next
  case (Suc n)
  then have "\<not> isDragging (state ((tickCard ^^ n) c))" by (simp add: energy_ticks)
  from state_tickCard[OF this] Suc show ?case by simp
qed

lemma settleEnergy_offset: "31691 / 517500 * d\<^sup>2 \<le> settleEnergy d v"
proof -
  have "settleEnergy d v - 31691 / 517500 * d\<^sup>2 = 23 / 25 * (v + 7 / 690 * d)\<^sup>2"
    by (simp add: settleEnergy_def power2_eq_square field_simps)
  moreover have "0 \<le> 23 / 25 * (v + 7 / 690 * d)\<^sup>2" by simp
  ultimately show ?thesis by linarith
qed

lemma settleEnergy_zero: "settleEnergy d v = 0 \<longleftrightarrow> d = 0 \<and> v = 0"
proof
  assume z: "settleEnergy d v = 0"
  have a: "settleEnergy d v = 31691 / 517500 * d\<^sup>2 + 23 / 25 * (v + 7 / 690 * d)\<^sup>2"
    by (simp add: settleEnergy_def power2_eq_square field_simps)
  have "0 \<le> 31691 / 517500 * d\<^sup>2" "0 \<le> 23 / 25 * (v + 7 / 690 * d)\<^sup>2" by simp_all
  with z a have "31691 / 517500 * d\<^sup>2 = 0" "23 / 25 * (v + 7 / 690 * d)\<^sup>2 = 0" by linarith+
  then have "d = 0" "v + 7 / 690 * d = 0" by simp_all
  then show "d = 0 \<and> v = 0" by simp
next
  assume "d = 0 \<and> v = 0"
  then show "settleEnergy d v = 0" by (simp add: settleEnergy_def)
qed

lemma small_power: "517500 / 31691 * ((23 / 25) ^ 128 * (1840 / 3)) < (1 / 4 :: real)"
  by (simp add: power_divide field_simps)

lemma within_half:
  assumes "128 \<le> n" and "w = (23 / 25) ^ n * (1840 / 3)" and "31691 / 517500 * d\<^sup>2 \<le> (w :: real)"
  shows "\<bar>d\<bar> < 1 / 2"
proof -
  have "(23 / 25 :: real) ^ n \<le> (23 / 25) ^ 128"
    using assms(1) by (intro power_decreasing) simp_all
  then have "w \<le> (23 / 25) ^ 128 * (1840 / 3)" using assms(2) by simp
  with assms(3) have "31691 / 517500 * d\<^sup>2 \<le> (23 / 25) ^ 128 * (1840 / 3)" by linarith
  then have "d\<^sup>2 \<le> 517500 / 31691 * ((23 / 25) ^ 128 * (1840 / 3))" by (simp add: field_simps)
  with small_power have "d\<^sup>2 < (1 / 2)\<^sup>2" by (simp add: power2_eq_square)
  then show ?thesis
    by (metis half_gt_zero_iff power2_abs power2_less_imp_less zero_less_one less_eq_real_def)
qed

lemma settling_energy0:
  "energyX (state settlingCard) = 1840 / 3" "energyY (state settlingCard) = 1840 / 3"
  by (simp_all add: energyX_def energyY_def settleEnergy_def settlingCard_def)

lemma settling_never_at_rest:
  "\<not> (state_vx (state ((tickCard ^^ n) settlingCard)) = 0 \<and>
       state_vx (state ((tickCard ^^ Suc n) settlingCard)) = 0)"
proof
  let ?st = "(tickState ^^ n) (state settlingCard)"
  assume a: "state_vx (state ((tickCard ^^ n) settlingCard)) = 0 \<and>
       state_vx (state ((tickCard ^^ Suc n) settlingCard)) = 0"
  have nd: "\<not> isDragging (state settlingCard)" by (simp add: settlingCard_def)
  from a have v0: "state_vx ?st = 0" by (simp add: tickCard_ticks[OF nd])
  from a have "state_vx ((tickState ^^ Suc n) (state settlingCard)) = 0"
    by (simp only: tickCard_ticks[OF nd])
  then have v1: "state_vx (tickState ?st) = 0" by simp
  from v0 v1 have "state_x ?st - targetX ?st = 0" by simp
  with v0 have "energyX ?st = 0" by (simp add: energyX_def settleEnergy_def)
  then have "(23 / 25 :: real) ^ n * (1840 / 3) = 0" by (simp add: energy_ticks settling_energy0)
  then show False by simp
qed

text \<open>
  Claim C6, as amended.  The card with target \<open>(100, 100)\<close>, started at rest at
  \<open>(0, 0)\<close> and not dragged, is within 0.5 units of its target in both coordinates after
  every number of ticks from 128 on.  Its velocity is never snapped to zero: it is not zero
  on any two consecutive ticks.
\<close>

theorem card_settles_within_half:
  assumes "128 \<le> n"
  shows "\<bar>state_x (state ((tickCard ^^ n) settlingCard)) - 100\<bar> < 1 / 2 \<and>
         \<bar>state_y (state ((tickCard ^^ n) settlingCard)) - 100\<bar> < 1 / 2 \<and>
         \<not> (state_vx (state ((tickCard ^^ n) settlingCard)) = 0 \<and>
            state_vx (state ((tickCard ^^ Suc n) settlingCard)) = 0)"
proof -
  let ?st = "(tickState ^^ n) (state settlingCard)"
  have nd: "\<not> isDragging (state settlingCard)" by (simp add: settlingCard_def)
  have t: "targetX ?st = 100" "targetY ?st = 100" by (simp_all add: energy_ticks settlingCard_def)
  have ex: "energyX ?st = (23 / 25) ^ n * (1840 / 3)" and ey: "energyY ?st = (23 / 25) ^ n * (1840 / 3)"
    by (simp_all add: energy_ticks settling_energy0)
  have "\<bar>state_x ?st - 100\<bar> < 1 / 2"
    using within_half[OF assms ex[symmetric, THEN sym]] settleEnergy_offset[of "state_x ?st - 100" "state_vx ?st"] t
    by (simp add: energyX_def)
  moreover have "\<bar>state_y ?st - 100\<bar> < 1 / 2"
    using within_half[OF assms ey[symmetric, THEN sym]] settleEnergy_offset[of "state_y ?st - 100" "state_vy ?st"] t
    by (simp add: energyY_def)
  ultimately show ?thesis
    using settling_never_at_rest[of n] by (simp only: tickCard_ticks[OF nd, of n]) blast
qed

theorem card_settles_within_half_witness:
  "(128 :: nat) \<le> 128 \<and> \<bar>state_x (state ((tickCard ^^ 128) settlingCard)) - 100\<bar> < 1 / 2 \<and>
   \<bar>state_y (state ((tickCard ^^ 128) settlingCard)) - 100\<bar> < 1 / 2"
  using card_settles_within_half [of 128] by simp

text \<open>
  The claim as first stated also has the velocity reach exactly zero and stay there.  The
  card update has no threshold below which it stops, unlike the viewport, and so there is
  no tick from which the velocity is zero.
\<close>

theorem card_velocity_never_stays_zero:
  "\<not> (\<exists>N. \<forall>n \<ge> N. state_vx (state ((tickCard ^^ n) settlingCard)) = 0)"
proof
  assume "\<exists>N. \<forall>n \<ge> N. state_vx (state ((tickCard ^^ n) settlingCard)) = 0"
  then obtain N where N: "\<forall>n \<ge> N. state_vx (state ((tickCard ^^ n) settlingCard)) = 0" by blast
  then have "state_vx (state ((tickCard ^^ N) settlingCard)) = 0"
    and "state_vx (state ((tickCard ^^ Suc N) settlingCard)) = 0" by (simp_all del: funpow.simps)
  with settling_never_at_rest[of N] show False by blast
qed

section \<open>Erasing strokes\<close>

subsection \<open>Removing the first match from a list\<close>

fun dropFirst :: "('a \<Rightarrow> bool) \<Rightarrow> 'a list \<Rightarrow> 'a list" where
  "dropFirst p [] = []"
| "dropFirst p (x # xs) = (if p x then xs else x # dropFirst p xs)"

lemma findIndexFrom_range: "findIndexFrom p i xs = -1 \<or> i \<le> findIndexFrom p i xs"
proof (induction xs arbitrary: i)
  case Nil
  show ?case by simp
next
  case (Cons x xs)
  from Cons[of "i + 1"] show ?case by auto
qed

lemma findIndexFrom_none: "0 \<le> i \<Longrightarrow> (findIndexFrom p i xs = -1) = (\<forall>x \<in> set xs. \<not> p x)"
proof (induction xs arbitrary: i)
  case Nil
  show ?case by simp
next
  case (Cons x xs)
  from Cons.IH[of "i + 1"] Cons.prems show ?case by auto
qed

lemma splice1_Cons_Suc: "splice1 (x # xs) (Suc k) = x # splice1 xs k"
  by (simp add: splice1_def)

lemma splice1_findIndexFrom:
  "0 \<le> i \<Longrightarrow> findIndexFrom p i xs \<noteq> -1 \<Longrightarrow>
   splice1 xs (nat (findIndexFrom p i xs - i)) = dropFirst p xs"
proof (induction xs arbitrary: i)
  case Nil
  then show ?case by simp
next
  case (Cons x xs)
  show ?case
  proof (cases "p x")
    case True
    then show ?thesis by (simp add: splice1_def)
  next
    case False
    let ?r = "findIndexFrom p (i + 1) xs"
    from False Cons.prems have r: "?r \<noteq> -1" by simp
    with findIndexFrom_range[of p "i + 1" xs] have ge: "i + 1 \<le> ?r" by simp
    then have "nat (?r - i) = Suc (nat (?r - (i + 1)))" by simp
    moreover have "splice1 xs (nat (?r - (i + 1))) = dropFirst p xs"
      using Cons.IH[of "i + 1"] Cons.prems(1) r by simp
    ultimately show ?thesis using False by (simp add: splice1_Cons_Suc)
  qed
qed

lemma dropFirst_none: "\<forall>x \<in> set xs. \<not> p x \<Longrightarrow> dropFirst p xs = xs"
  by (induction xs) auto

lemma findIndex_none: "(findIndex p xs = -1) = (\<forall>x \<in> set xs. \<not> p x)"
  by (simp add: findIndex_def findIndexFrom_none)

lemma splice1_findIndex:
  "(if findIndex p xs \<noteq> -1 then splice1 xs (nat (findIndex p xs)) else xs) = dropFirst p xs"
  using splice1_findIndexFrom[of 0 p xs] dropFirst_none[of xs p]
  by (auto simp: findIndex_def findIndexFrom_none)

lemma dropFirst_append:
  "dropFirst p (xs @ ys) = (if \<exists>x \<in> set xs. p x then dropFirst p xs @ ys else xs @ dropFirst p ys)"
  by (induction xs) auto

lemma map_dropFirst_key: "map f (dropFirst (\<lambda>x. f x = k) xs) = remove1 k (map f xs)"
  by (induction xs) auto

lemma foldl_remove1_set:
  "distinct l \<Longrightarrow> distinct (foldl (\<lambda>l k. remove1 k l) l ks) \<and>
     set (foldl (\<lambda>l k. remove1 k l) l ks) = set l - set ks"
  by (induction ks arbitrary: l) auto

subsection \<open>Removal from the quadtree\<close>

definition idsOf :: "('z Item_scheme) Quadtree \<Rightarrow> string list" where
  "idsOf t = map (\<lambda>en. item_id (fst en)) (entries t)"

lemma removeById_spec:
  "fst (removeById t k) = (\<exists>en \<in> set (entries t). item_id (fst en) = k) \<and>
   entries (snd (removeById t k)) = dropFirst (\<lambda>en. item_id (fst en) = k) (entries t)"
proof (induction t)
  case (QLeaf b c m l os)
  let ?p = "\<lambda>en. item_id (fst en) = k"
  show ?case
  proof (cases "findIndex ?p os = -1")
    case False
    then have ex: "\<exists>en \<in> set os. ?p en" by (simp add: findIndex_none)
    have "splice1 os (nat (findIndex ?p os)) = dropFirst ?p os"
      using splice1_findIndex[of ?p os] False by simp
    with False ex show ?thesis by (simp add: Let_def)
  next
    case True
    then have no: "\<forall>en \<in> set os. \<not> ?p en" by (simp add: findIndex_none)
    with True show ?thesis by (simp add: Let_def dropFirst_none)
  qed
next
  case (QNode b c m l os n0 n1 n2 n3)
  let ?p = "\<lambda>en. item_id (fst en) = k"
  show ?case
  proof (cases "findIndex ?p os = -1")
    case False
    then have ex: "\<exists>en \<in> set os. ?p en" by (simp add: findIndex_none)
    have "splice1 os (nat (findIndex ?p os)) = dropFirst ?p os"
      using splice1_findIndex[of ?p os] False by simp
    with False ex show ?thesis by (auto simp: Let_def dropFirst_append)
  next
    case True
    then have no: "\<forall>en \<in> set os. \<not> ?p en" by (simp add: findIndex_none)
    obtain f0 m0 where r0: "removeById n0 k = (f0, m0)" by (cases "removeById n0 k")
    obtain f1 m1 where r1: "removeById n1 k = (f1, m1)" by (cases "removeById n1 k")
    obtain f2 m2 where r2: "removeById n2 k = (f2, m2)" by (cases "removeById n2 k")
    obtain f3 m3 where r3: "removeById n3 k = (f3, m3)" by (cases "removeById n3 k")
    from QNode.IH(1) r0 have i0: "f0 = (\<exists>en \<in> set (entries n0). ?p en)" "entries m0 = dropFirst ?p (entries n0)" by simp_all
    from QNode.IH(2) r1 have i1: "f1 = (\<exists>en \<in> set (entries n1). ?p en)" "entries m1 = dropFirst ?p (entries n1)" by simp_all
    from QNode.IH(3) r2 have i2: "f2 = (\<exists>en \<in> set (entries n2). ?p en)" "entries m2 = dropFirst ?p (entries n2)" by simp_all
    from QNode.IH(4) r3 have i3: "f3 = (\<exists>en \<in> set (entries n3). ?p en)" "entries m3 = dropFirst ?p (entries n3)" by simp_all
    show ?thesis
    proof (cases f0)
      case True
      with r0 \<open>findIndex ?p os = -1\<close> no i0 show ?thesis
        by (auto simp: Let_def dropFirst_append)
    next
      case n0: False
      then have d0: "entries m0 = entries n0" using i0 by (simp add: dropFirst_none)
      show ?thesis
      proof (cases f1)
        case True
        with n0 r0 r1 \<open>findIndex ?p os = -1\<close> no i0 i1 d0 show ?thesis
          by (auto simp: Let_def dropFirst_append)
      next
        case n1: False
        then have d1: "entries m1 = entries n1" using i1 by (simp add: dropFirst_none)
        show ?thesis
        proof (cases f2)
          case True
          with n0 n1 r0 r1 r2 \<open>findIndex ?p os = -1\<close> no i0 i1 i2 d0 d1 show ?thesis
            by (auto simp: Let_def dropFirst_append)
        next
          case n2: False
          then have d2: "entries m2 = entries n2" using i2 by (simp add: dropFirst_none)
          from n0 n1 n2 r0 r1 r2 r3 \<open>findIndex ?p os = -1\<close> no i0 i1 i2 i3 d0 d1 d2 show ?thesis
            by (auto simp: Let_def dropFirst_append)
        qed
      qed
    qed
  qed
qed

lemma idsOf_remove: "idsOf (remove t k) = remove1 k (idsOf t)"
  using removeById_spec[of t k] map_dropFirst_key[of "\<lambda>en. item_id (fst en)" k "entries t"]
  by (simp add: idsOf_def remove_def)

lemma idsOf_removes:
  "distinct (idsOf t) \<Longrightarrow> set (idsOf (foldl remove t ks)) = set (idsOf t) - set ks"
proof -
  have "idsOf (foldl remove t ks) = foldl (\<lambda>l k. remove1 k l) (idsOf t) ks"
    by (induction ks arbitrary: t) (simp_all add: idsOf_remove)
  then show "distinct (idsOf t) \<Longrightarrow> ?thesis" by (simp add: foldl_remove1_set)
qed

subsection \<open>A hit stroke overlaps the search rectangle\<close>

lemma sqrt_less_iff_square: "0 \<le> r \<Longrightarrow> (sqrt a < r) = (a < r\<^sup>2)"
proof -
  assume r: "0 \<le> r"
  then have "sqrt (r\<^sup>2) = r" by simp
  then have "(sqrt a < r) = (sqrt a < sqrt (r\<^sup>2))" by simp
  also have "\<dots> = (a < r\<^sup>2)" by (rule real_sqrt_less_iff)
  finally show ?thesis .
qed

lemma sqrt_sum_less:
  assumes "sqrt (a\<^sup>2 + b\<^sup>2) < r"
  shows "\<bar>a\<bar> < r \<and> \<bar>b\<bar> < r"
proof -
  have "\<bar>a\<bar> = sqrt (a\<^sup>2)" "\<bar>b\<bar> = sqrt (b\<^sup>2)" by simp_all
  moreover have "sqrt (a\<^sup>2) \<le> sqrt (a\<^sup>2 + b\<^sup>2)" "sqrt (b\<^sup>2) \<le> sqrt (a\<^sup>2 + b\<^sup>2)"
    by (simp_all del: real_sqrt_abs)
  ultimately show ?thesis using assms by linarith
qed

lemma between_ends:
  assumes "0 \<le> t" and "t \<le> (1 :: real)"
  shows "min x1 x2 \<le> x1 + t * (x2 - x1) \<and> x1 + t * (x2 - x1) \<le> max x1 x2"
proof (cases "x1 \<le> x2")
  case True
  then have "0 \<le> t * (x2 - x1)" using assms(1) by simp
  moreover have "t * (x2 - x1) \<le> 1 * (x2 - x1)" using assms(2) True by (intro mult_right_mono) simp_all
  ultimately show ?thesis using True by simp
next
  case False
  then have "0 \<le> t * (x1 - x2)" using assms(1) by simp
  moreover have "t * (x1 - x2) \<le> 1 * (x1 - x2)" using assms(2) False by (intro mult_right_mono) simp_all
  ultimately show ?thesis using False by (simp add: algebra_simps)
qed

lemma distToSegment_near:
  assumes "distToSegment px py x1 y1 x2 y2 < r"
  shows "\<exists>sx sy. min x1 x2 \<le> sx \<and> sx \<le> max x1 x2 \<and> min y1 y2 \<le> sy \<and> sy \<le> max y1 y2 \<and>
                 \<bar>px - sx\<bar> < r \<and> \<bar>py - sy\<bar> < r"
proof (cases "(x1 - x2)\<^sup>2 + (y1 - y2)\<^sup>2 = 0")
  case True
  have "distToSegment px py x1 y1 x2 y2 = sqrt ((px - x1)\<^sup>2 + (py - y1)\<^sup>2)"
    unfolding distToSegment_def Let_def by (rule if_P[OF True])
  with assms have "sqrt ((px - x1)\<^sup>2 + (py - y1)\<^sup>2) < r" by simp
  from sqrt_sum_less[OF this] show ?thesis
    by (intro exI[of _ x1] exI[of _ y1]) simp
next
  case False
  define t where "t = max 0 (min 1 (((px - x1) * (x2 - x1) + (py - y1) * (y2 - y1)) / ((x1 - x2)\<^sup>2 + (y1 - y2)\<^sup>2)))"
  have t: "0 \<le> t" "t \<le> 1" by (simp_all add: t_def)
  have "distToSegment px py x1 y1 x2 y2
      = sqrt ((px - (x1 + t * (x2 - x1)))\<^sup>2 + (py - (y1 + t * (y2 - y1)))\<^sup>2)"
    unfolding distToSegment_def Let_def t_def by (rule if_not_P[OF False])
  with assms have "sqrt ((px - (x1 + t * (x2 - x1)))\<^sup>2 + (py - (y1 + t * (y2 - y1)))\<^sup>2) < r"
    by simp
  from sqrt_sum_less[OF this] between_ends[OF t, of x1 x2] between_ends[OF t, of y1 y2]
  show ?thesis
    by (intro exI[of _ "x1 + t * (x2 - x1)"] exI[of _ "y1 + t * (y2 - y1)"]) simp
qed

lemma strokeHit_segment:
  "strokeHit lp r pts \<Longrightarrow>
   \<exists>p1 \<in> set pts. \<exists>p2 \<in> set pts.
     distToSegment (fst lp) (snd lp) (fst p1) (fst (snd p1)) (fst p2) (fst (snd p2)) < r"
proof (induction lp r pts rule: strokeHit.induct)
  case (1 lp r p1 p2 ps)
  show ?case
  proof (cases "distToSegment (fst lp) (snd lp) (fst p1) (fst (snd p1)) (fst p2) (fst (snd p2)) < r")
    case True
    then show ?thesis by auto
  next
    case False
    with 1 have "\<exists>q1 \<in> set (p2 # ps). \<exists>q2 \<in> set (p2 # ps).
       distToSegment (fst lp) (snd lp) (fst q1) (fst (snd q1)) (fst q2) (fst (snd q2)) < r" by simp
    then show ?thesis by (meson list.set_intros(2))
  qed
qed simp_all

lemma strokeHit_iff:
  "strokeHit lp r pts \<longleftrightarrow>
     (\<exists>j. Suc j < length pts \<and>
        distToSegment (fst lp) (snd lp) (fst (pts ! j)) (fst (snd (pts ! j)))
          (fst (pts ! Suc j)) (fst (snd (pts ! Suc j))) < r)"
proof (induction lp r pts rule: strokeHit.induct)
  case (1 lp r p1 p2 ps)
  let ?d = "\<lambda>a b. distToSegment (fst lp) (snd lp) (fst a) (fst (snd a)) (fst b) (fst (snd b)) < r"
  show ?case
  proof (cases "?d p1 p2")
    case True
    then show ?thesis by (auto intro: exI[of _ 0])
  next
    case False
    with 1 have ih: "strokeHit lp r (p1 # p2 # ps) \<longleftrightarrow>
       (\<exists>j. Suc j < length (p2 # ps) \<and> ?d ((p2 # ps) ! j) ((p2 # ps) ! Suc j))" by simp
    have "(\<exists>j. Suc j < length (p2 # ps) \<and> ?d ((p2 # ps) ! j) ((p2 # ps) ! Suc j))
        \<longleftrightarrow> (\<exists>j. Suc j < length (p1 # p2 # ps) \<and> ?d ((p1 # p2 # ps) ! j) ((p1 # p2 # ps) ! Suc j))"
    proof
      assume "\<exists>j. Suc j < length (p2 # ps) \<and> ?d ((p2 # ps) ! j) ((p2 # ps) ! Suc j)"
      then obtain j where "Suc j < length (p2 # ps)" "?d ((p2 # ps) ! j) ((p2 # ps) ! Suc j)" by blast
      then show "\<exists>j. Suc j < length (p1 # p2 # ps) \<and> ?d ((p1 # p2 # ps) ! j) ((p1 # p2 # ps) ! Suc j)"
        by (intro exI[of _ "Suc j"]) simp
    next
      assume "\<exists>j. Suc j < length (p1 # p2 # ps) \<and> ?d ((p1 # p2 # ps) ! j) ((p1 # p2 # ps) ! Suc j)"
      then obtain j where j: "Suc j < length (p1 # p2 # ps)" "?d ((p1 # p2 # ps) ! j) ((p1 # p2 # ps) ! Suc j)" by blast
      with False obtain i where "j = Suc i" by (cases j) auto
      with j show "\<exists>j. Suc j < length (p2 # ps) \<and> ?d ((p2 # ps) ! j) ((p2 # ps) ! Suc j)"
        by (intro exI[of _ i]) simp
    qed
    with ih show ?thesis by simp
  qed
qed simp_all

lemma fold_min_le:
  "foldl (\<lambda>m q. if f q < m then f q else m) (m0 :: real) ps \<le> m0 \<and>
   (\<forall>q \<in> set ps. foldl (\<lambda>m q. if f q < m then f q else m) m0 ps \<le> f q)"
proof (induction ps rule: rev_induct)
  case Nil
  show ?case by simp
next
  case (snoc p ps)
  then show ?case by (auto simp: not_less intro: order_trans less_imp_le)
qed

lemma fold_max_ge:
  "m0 \<le> foldl (\<lambda>m q. if f q > m then f q else m) (m0 :: real) ps \<and>
   (\<forall>q \<in> set ps. f q \<le> foldl (\<lambda>m q. if f q > m then f q else m) m0 ps)"
proof (induction ps rule: rev_induct)
  case Nil
  show ?case by simp
next
  case (snoc p ps)
  then show ?case by (auto simp: not_less intro: order_trans less_imp_le)
qed

lemma strokeBounds_cover:
  assumes "getStrokeBounds s = Some b" and "q \<in> set (points s)"
  shows "rect_x b + 20 \<le> fst q \<and> fst q \<le> rect_x b + rect_width b - 20 \<and>
         rect_y b + 20 \<le> fst (snd q) \<and> fst (snd q) \<le> rect_y b + rect_height b - 20"
proof (cases "points s")
  case Nil
  with assms(2) show ?thesis by simp
next
  case (Cons p ps)
  let ?minX = "foldl (\<lambda>m q. if fst q < m then fst q else m) (fst p) ps"
  let ?minY = "foldl (\<lambda>m q. if fst (snd q) < m then fst (snd q) else m) (fst (snd p)) ps"
  let ?maxX = "foldl (\<lambda>m q. if fst q > m then fst q else m) (fst p) ps"
  let ?maxY = "foldl (\<lambda>m q. if fst (snd q) > m then fst (snd q) else m) (fst (snd p)) ps"
  from assms(1) Cons have b: "b = \<lparr>rect_x = ?minX - 20, rect_y = ?minY - 20,
       rect_width = ?maxX - ?minX + 20 * 2, rect_height = ?maxY - ?minY + 20 * 2\<rparr>"
    by (simp add: getStrokeBounds_def Let_def)
  from assms(2) Cons have "q = p \<or> q \<in> set ps" by simp
  then have "?minX \<le> fst q \<and> fst q \<le> ?maxX \<and> ?minY \<le> fst (snd q) \<and> fst (snd q) \<le> ?maxY"
    using fold_min_le[of fst "fst p" ps] fold_max_ge[of "fst p" fst ps]
      fold_min_le[of "\<lambda>q. fst (snd q)" "fst (snd p)" ps] fold_max_ge[of "fst (snd p)" "\<lambda>q. fst (snd q)" ps]
    by auto
  then show ?thesis unfolding b by simp
qed

definition searchBoundsAt :: "real \<times> real \<Rightarrow> Rect" where
  "searchBoundsAt lp = \<lparr>rect_x = fst lp - 20, rect_y = snd lp - 20, rect_width = 20 * 2, rect_height = 20 * 2\<rparr>"

lemma hit_intersects:
  assumes "getStrokeBounds s = Some b" and "strokeHit lp 20 (points s)"
  shows "intersects b (searchBoundsAt lp)"
proof -
  from strokeHit_segment[OF assms(2)] obtain p1 p2 where
    p: "p1 \<in> set (points s)" "p2 \<in> set (points s)"
    and d: "distToSegment (fst lp) (snd lp) (fst p1) (fst (snd p1)) (fst p2) (fst (snd p2)) < 20"
    by blast
  from distToSegment_near[OF d] obtain sx sy where
    s: "min (fst p1) (fst p2) \<le> sx" "sx \<le> max (fst p1) (fst p2)"
       "min (fst (snd p1)) (fst (snd p2)) \<le> sy" "sy \<le> max (fst (snd p1)) (fst (snd p2))"
       "\<bar>fst lp - sx\<bar> < 20" "\<bar>snd lp - sy\<bar> < 20"
    by blast
  from strokeBounds_cover[OF assms(1) p(1)] strokeBounds_cover[OF assms(1) p(2)] s
  show ?thesis by (simp add: intersects_def searchBoundsAt_def) (auto simp: min_def max_def split: if_splits)
qed

subsection \<open>The hits and their removal\<close>

lemma retrieve_subset_entries: "set (retrieve t [] q) \<subseteq> fst ` set (entries t)"
proof (induction t)
  case (QLeaf b c m l os)
  show ?case by simp
next
  case (QNode b c m l os n0 n1 n2 n3)
  let ?E = "fst ` (set (entries n0) \<union> set (entries n1) \<union> set (entries n2) \<union> set (entries n3))"
  have ch: "set (retrieve n [] q) \<subseteq> ?E" if "n \<in> set [n0, n1, n2, n3]" for n
  proof -
    from that consider "n = n0" | "n = n1" | "n = n2" | "n = n3" by auto
    then show ?thesis using QNode.IH by cases blast+
  qed
  have fo: "set (foldl (\<lambda>acc n. if intersects (bounds n) q then retrieve n acc q else acc) [] [n0, n1, n2, n3]) \<subseteq> ?E"
    unfolding foldl_retrieve_set using ch by (simp del: foldl_Cons) blast
  have one: "set (retrieve (nodeAt (n0, n1, n2, n3) (getIndex b q)) [] q) \<subseteq> ?E"
    by (rule ch) (rule nodeAt_in_set)
  have "set (retrieve (QNode b c m l os n0 n1 n2 n3) [] q) \<subseteq> ?E \<union> fst ` set os"
  proof (cases "getIndex b q = -1")
    case True
    with fo show ?thesis unfolding retrieve_QNode by (simp del: foldl_Cons) blast
  next
    case False
    with one show ?thesis unfolding retrieve_QNode by (simp del: foldl_Cons nodeAt.simps) blast
  qed
  then show ?case by (simp add: image_Un) blast
qed

lemma eraseHits_set:
  "set (eraseHits e lp r cands) =
     {stroke_id (strokeObjects e (stroke it)) | it.
        it \<in> set cands \<and> strokeHit lp r (points (strokeObjects e (stroke it))) \<and>
        stroke_id (strokeObjects e (stroke it)) \<noteq> ''''}"
proof (induction cands rule: rev_induct)
  case Nil
  show ?case by (simp add: eraseHits_def)
next
  case (snoc c cands)
  have "eraseHits e lp r (cands @ [c]) =
     (let hits = eraseHits e lp r cands; s = strokeObjects e (stroke c) in
      if strokeHit lp r (points s) then
        (if stroke_id s \<noteq> '''' \<and> stroke_id s \<notin> set hits then hits @ [stroke_id s] else hits)
      else hits)"
    by (simp add: eraseHits_def Let_def)
  with snoc show ?case by (auto simp: Let_def)
qed

lemma eraseStroke_fields:
  "strokeQuadtree (eraseStroke e k) = remove (strokeQuadtree e) k"
  "strokeObjects (eraseStroke e k) = strokeObjects e"
  "onStrokeDeleted (eraseStroke e k) = onStrokeDeleted e"
  "calls (eraseStroke e k) = (if onStrokeDeleted e then calls e @ [StrokeDeleted k] else calls e)"
  "strokes (eraseStroke e k) = dropFirst (\<lambda>r. stroke_id (strokeObjects e r) = k) (strokes e)"
  using splice1_findIndex[of "\<lambda>r. stroke_id (strokeObjects e r) = k" "strokes e"]
  by (auto simp: eraseStroke_def Let_def)

lemma eraseStrokes_fields:
  "strokeQuadtree (foldl eraseStroke e ks) = foldl remove (strokeQuadtree e) ks \<and>
   strokeObjects (foldl eraseStroke e ks) = strokeObjects e \<and>
   onStrokeDeleted (foldl eraseStroke e ks) = onStrokeDeleted e \<and>
   calls (foldl eraseStroke e ks) = calls e @ (if onStrokeDeleted e then map StrokeDeleted ks else []) \<and>
   map (\<lambda>r. stroke_id (strokeObjects e r)) (strokes (foldl eraseStroke e ks))
     = foldl (\<lambda>l k. remove1 k l) (map (\<lambda>r. stroke_id (strokeObjects e r)) (strokes e)) ks"
proof (induction ks arbitrary: e)
  case Nil
  show ?case by simp
next
  case (Cons k ks)
  from Cons[of "eraseStroke e k"] show ?case
    by (simp add: eraseStroke_fields map_dropFirst_key)
qed

lemma eraseAt_unfold:
  "eraseAt x y e =
     foldl eraseStroke e
       (eraseHits e (toLocal (worldContainer e) (x, y)) 20
          (retrieve (strokeQuadtree e) [] (searchBoundsAt (toLocal (worldContainer e) (x, y)))))"
  by (simp add: eraseAt_def Let_def searchBoundsAt_def)

text \<open>
  The stroke index is \<open>filed\<close> when it holds its strokes the way \<^verbatim>\<open>endStroke\<close> files
  them: each entry under the padded bounding box of its stroke and under the identifier of
  its stroke, which is not empty.
\<close>

definition filed :: "CanvasEngine \<Rightarrow> bool" where
  "filed e \<longleftrightarrow>
     (\<forall>en \<in> set (entries (strokeQuadtree e)).
        getStrokeBounds (strokeObjects e (stroke (fst en))) = Some (snd en) \<and>
        stroke_id (strokeObjects e (stroke (fst en))) = item_id (fst en) \<and>
        item_id (fst en) \<noteq> '''')"

text \<open>
  Erasing goes through where the index can find the strokes.  Let the stroke index be well
  placed (every indexed stroke lies inside the world) and filed, let identifiers be unique
  in the index and in the list of strokes, and let the host have registered
  \<^verbatim>\<open>onStrokeDeleted\<close>.  Then one call of \<^verbatim>\<open>eraseAt\<close> at \<open>(x, y)\<close> deals with
  every indexed stroke that has a segment at distance less than 20 from the point, whatever
  their number and order: its identifier is reported to the persistence collaborator, it is
  gone from the index, and no stroke with that identifier is left in the scene.  Nothing
  else is reported.
\<close>

lemma eraseAt_removes_every_hit_stroke:
  assumes "wellPlaced (strokeQuadtree e)" and "filed e"
    and "distinct (idsOf (strokeQuadtree e))"
    and "distinct (map (\<lambda>r. stroke_id (strokeObjects e r)) (strokes e))"
    and "onStrokeDeleted e"
    and "(item, b) \<in> set (entries (strokeQuadtree e))"
    and "Suc j < length (points (strokeObjects e (stroke item)))"
    and "distToSegment (fst (toLocal (worldContainer e) (x, y))) (snd (toLocal (worldContainer e) (x, y)))
           (fst (points (strokeObjects e (stroke item)) ! j))
           (fst (snd (points (strokeObjects e (stroke item)) ! j)))
           (fst (points (strokeObjects e (stroke item)) ! Suc j))
           (fst (snd (points (strokeObjects e (stroke item)) ! Suc j))) < 20"
  shows "item_id item \<notin> set (idsOf (strokeQuadtree (eraseAt x y e))) \<and>
         StrokeDeleted (item_id item) \<in> set (calls (eraseAt x y e)) \<and>
         item_id item \<notin> set (map (\<lambda>r. stroke_id (strokeObjects (eraseAt x y e) r)) (strokes (eraseAt x y e))) \<and>
         (\<exists>hits. calls (eraseAt x y e) = calls e @ map StrokeDeleted hits \<and>
                 set hits \<subseteq> set (idsOf (strokeQuadtree e)) \<and>
                 set (idsOf (strokeQuadtree (eraseAt x y e))) = set (idsOf (strokeQuadtree e)) - set hits)"
proof -
  let ?lp = "toLocal (worldContainer e) (x, y)"
  let ?cands = "retrieve (strokeQuadtree e) [] (searchBoundsAt ?lp)"
  let ?hits = "eraseHits e ?lp 20 ?cands"
  let ?s = "strokeObjects e (stroke item)"
  from assms(2,6) have f: "getStrokeBounds ?s = Some b" "stroke_id ?s = item_id item" "item_id item \<noteq> ''''"
    by (auto simp: filed_def)
  have hit: "strokeHit ?lp 20 (points ?s)"
    unfolding strokeHit_iff using assms(7,8) by blast
  have "intersects b (searchBoundsAt ?lp)" by (rule hit_intersects[OF f(1) hit])
  from retrieve_complete[OF assms(1,6) this] have c: "item \<in> set ?cands" .
  have h: "item_id item \<in> set ?hits"
    unfolding eraseHits_set using c hit f by force
  have sub: "set ?hits \<subseteq> set (idsOf (strokeQuadtree e))"
  proof
    fix k assume "k \<in> set ?hits"
    then obtain it where it: "it \<in> set ?cands" "k = stroke_id (strokeObjects e (stroke it))"
      unfolding eraseHits_set by blast
    note retrieve_subset_entries[of "strokeQuadtree e" "searchBoundsAt ?lp"]
    with it(1) obtain bb where "(it, bb) \<in> set (entries (strokeQuadtree e))" by force
    with assms(2) it(2) show "k \<in> set (idsOf (strokeQuadtree e))"
      by (force simp: filed_def idsOf_def)
  qed
  have e': "eraseAt x y e = foldl eraseStroke e ?hits" by (rule eraseAt_unfold)
  note fl = eraseStrokes_fields[of e ?hits]
  have q: "set (idsOf (strokeQuadtree (eraseAt x y e))) = set (idsOf (strokeQuadtree e)) - set ?hits"
    using idsOf_removes[OF assms(3), of ?hits] fl by (simp add: e')
  have cl: "calls (eraseAt x y e) = calls e @ map StrokeDeleted ?hits"
    using fl assms(5) by (simp add: e')
  have "set (map (\<lambda>r. stroke_id (strokeObjects e r)) (strokes (eraseAt x y e)))
      = set (map (\<lambda>r. stroke_id (strokeObjects e r)) (strokes e)) - set ?hits"
    using foldl_remove1_set[OF assms(4), of ?hits] fl by (simp add: e')
  moreover have "strokeObjects (eraseAt x y e) = strokeObjects e" using fl by (simp add: e')
  ultimately have st: "item_id item \<notin> set (map (\<lambda>r. stroke_id (strokeObjects (eraseAt x y e) r)) (strokes (eraseAt x y e)))"
    using h by simp
  from q h cl st sub show ?thesis by auto
qed

subsection \<open>Examples: ten strokes erased at once, and a stroke outside the world that is missed\<close>

text \<open>A stroke drawn with two samples of pressure 0.5: start, one move, end.\<close>

definition drawStroke :: "string \<Rightarrow> real \<times> real \<Rightarrow> real \<times> real \<Rightarrow> CanvasEngine \<Rightarrow> CanvasEngine" where
  "drawStroke sid p q e =
     (case endStroke (continueStroke (Fallback q (1 / 2)) (startStroke p (1 / 2) sid e)) of
        Inr e' \<Rightarrow> e'
      | Inl err \<Rightarrow> e)"

definition identityContainer :: Container where
  "identityContainer = \<lparr>container_x = 0, container_y = 0, container_scale = 1\<rparr>"

definition segmentBounds :: "real \<times> real \<Rightarrow> real \<times> real \<Rightarrow> Rect" where
  "segmentBounds p q =
     \<lparr>rect_x = min (fst p) (fst q) - 20, rect_y = min (snd p) (snd q) - 20,
      rect_width = max (fst p) (fst q) - min (fst p) (fst q) + 40,
      rect_height = max (snd p) (snd q) - min (snd p) (snd q) + 40\<rparr>"

lemma drawStroke_fields:
  assumes "worldContainer e = identityContainer"
  shows "worldContainer (drawStroke sid p q e) = identityContainer"
    and "strokeQuadtree (drawStroke sid p q e)
           = insertQ (strokeQuadtree e) \<lparr>item_id = sid, stroke = nextStrokeObject e\<rparr> (segmentBounds p q)"
    and "strokeObjects (drawStroke sid p q e)
           = (strokeObjects e)(nextStrokeObject e :=
                \<lparr>points = [(fst p, snd p, 1 / 2), (fst q, snd q, 1 / 2)], stroke_id = sid\<rparr>)"
    and "nextStrokeObject (drawStroke sid p q e) = Suc (nextStrokeObject e)"
    and "strokes (drawStroke sid p q e) = strokes e @ [nextStrokeObject e]"
    and "onStrokeDeleted (drawStroke sid p q e) = onStrokeDeleted e"
    and "onStrokeFinished (drawStroke sid p q e) = onStrokeFinished e"
    and "calls (drawStroke sid p q e)
           = calls e @ (if onStrokeFinished e
                        then [StrokeFinished sid [(fst p, snd p, 1 / 2), (fst q, snd q, 1 / 2)]] else [])"
  using assms
  by (simp_all add: drawStroke_def endStroke_def continueStroke_def startStroke_def pushPoints_def
        getStrokeBounds_def toLocal_def orDefault_def identityContainer_def segmentBounds_def
        Let_def min_def max_def)

lemma callbacks_fields:
  "worldContainer (setPersistenceCallbacks newCanvasEngine) = identityContainer"
  "strokeQuadtree (setPersistenceCallbacks newCanvasEngine) = QLeaf worldBounds 10 5 0 []"
  "nextStrokeObject (setPersistenceCallbacks newCanvasEngine) = 0"
  "strokes (setPersistenceCallbacks newCanvasEngine) = []"
  "calls (setPersistenceCallbacks newCanvasEngine) = []"
  "onStrokeDeleted (setPersistenceCallbacks newCanvasEngine)"
  "onStrokeFinished (setPersistenceCallbacks newCanvasEngine)"
  by (simp_all add: setPersistenceCallbacks_def newCanvasEngine_def identityContainer_def newQuadtree_def)

lemma sqrt_less_20: "(sqrt a < 20) = (a < 400)"
  using sqrt_less_iff_square[of 20 a] by simp

text \<open>
  Ten short strokes across the centre of the world, then one stroke to the south-east of
  it.  The eleventh insertion splits the root of the index; the last stroke is filed in the
  south-east child, the others stay at the root.
\<close>

definition crossedStrokes :: CanvasEngine where
  "crossedStrokes =
     drawStroke ''side'' (100, 100) (110, 110)
       (foldl (\<lambda>e sid. drawStroke sid (-5, -5) (5, 5) e) (setPersistenceCallbacks newCanvasEngine)
          [''s1'', ''s2'', ''s3'', ''s4'', ''s5'', ''s6'', ''s7'', ''s8'', ''s9'', ''s10''])"

lemma crossedStrokes_fields:
  "worldContainer crossedStrokes = identityContainer"
  "entries (strokeQuadtree crossedStrokes)
     = map (\<lambda>k. (\<lparr>item_id = fst k, stroke = snd k\<rparr>,
                  \<lparr>rect_x = -25, rect_y = -25, rect_width = 50, rect_height = 50\<rparr>))
         [(''s1'', 0), (''s2'', 1), (''s3'', 2), (''s4'', 3), (''s5'', 4), (''s6'', 5), (''s7'', 6),
          (''s8'', 7), (''s9'', 8), (''s10'', 9)]
       @ [(\<lparr>item_id = ''side'', stroke = 10\<rparr>,
           \<lparr>rect_x = 80, rect_y = 80, rect_width = 50, rect_height = 50\<rparr>)]"
  "wellPlaced (strokeQuadtree crossedStrokes)"
  "map (strokeObjects crossedStrokes) [0, 1, 2, 3, 4, 5, 6, 7, 8, 9, 10]
     = map (\<lambda>k. \<lparr>points = [(-5, -5, 1 / 2), (5, 5, 1 / 2)], stroke_id = k\<rparr>)
         [''s1'', ''s2'', ''s3'', ''s4'', ''s5'', ''s6'', ''s7'', ''s8'', ''s9'', ''s10'']
       @ [\<lparr>points = [(100, 100, 1 / 2), (110, 110, 1 / 2)], stroke_id = ''side''\<rparr>]"
  "strokes crossedStrokes = [0, 1, 2, 3, 4, 5, 6, 7, 8, 9, 10]"
  "onStrokeDeleted crossedStrokes"
  by (simp_all add: crossedStrokes_def drawStroke_fields callbacks_fields segmentBounds_def
        worldBounds_def Let_def split_def getIndex_def redistribute.simps inside_def quadrant_def)

lemma crossedStrokes_filed:
  "filed crossedStrokes"
  "distinct (idsOf (strokeQuadtree crossedStrokes))"
  "distinct (map (\<lambda>r. stroke_id (strokeObjects crossedStrokes r)) (strokes crossedStrokes))"
  "(\<lparr>item_id = ''s10'', stroke = 9\<rparr>, \<lparr>rect_x = -25, rect_y = -25, rect_width = 50, rect_height = 50\<rparr>)
       \<in> set (entries (strokeQuadtree crossedStrokes))"
  using crossedStrokes_fields(4)
  by (simp_all add: crossedStrokes_fields(2,5) filed_def idsOf_def getStrokeBounds_def Let_def)



lemma crossedStrokes_retrieve:
  "retrieve (strokeQuadtree crossedStrokes) [] (searchBoundsAt (0, 0))
     = map (\<lambda>k. \<lparr>item_id = fst k, stroke = snd k\<rparr>)
         [(''side'', 10), (''s1'', 0), (''s2'', 1), (''s3'', 2), (''s4'', 3), (''s5'', 4), (''s6'', 5), (''s7'', 6),
          (''s8'', 7), (''s9'', 8), (''s10'', 9)]"
  by (simp add: crossedStrokes_def drawStroke_fields callbacks_fields segmentBounds_def
        searchBoundsAt_def worldBounds_def Let_def split_def getIndex_def
        redistribute.simps intersects_def)

lemma crossedStrokes_objects:
  "strokeObjects crossedStrokes 0 = \<lparr>points = [(-5, -5, 1 / 2), (5, 5, 1 / 2)], stroke_id = ''s1''\<rparr>"
  "strokeObjects crossedStrokes (Suc 0) = \<lparr>points = [(-5, -5, 1 / 2), (5, 5, 1 / 2)], stroke_id = ''s2''\<rparr>"
  "strokeObjects crossedStrokes 2 = \<lparr>points = [(-5, -5, 1 / 2), (5, 5, 1 / 2)], stroke_id = ''s3''\<rparr>"
  "strokeObjects crossedStrokes 3 = \<lparr>points = [(-5, -5, 1 / 2), (5, 5, 1 / 2)], stroke_id = ''s4''\<rparr>"
  "strokeObjects crossedStrokes 4 = \<lparr>points = [(-5, -5, 1 / 2), (5, 5, 1 / 2)], stroke_id = ''s5''\<rparr>"
  "strokeObjects crossedStrokes 5 = \<lparr>points = [(-5, -5, 1 / 2), (5, 5, 1 / 2)], stroke_id = ''s6''\<rparr>"
  "strokeObjects crossedStrokes 6 = \<lparr>points = [(-5, -5, 1 / 2), (5, 5, 1 / 2)], stroke_id = ''s7''\<rparr>"
  "strokeObjects crossedStrokes 7 = \<lparr>points = [(-5, -5, 1 / 2), (5, 5, 1 / 2)], stroke_id = ''s8''\<rparr>"
  "strokeObjects crossedStrokes 8 = \<lparr>points = [(-5, -5, 1 / 2), (5, 5, 1 / 2)], stroke_id = ''s9''\<rparr>"
  "strokeObjects crossedStrokes 9 = \<lparr>points = [(-5, -5, 1 / 2), (5, 5, 1 / 2)], stroke_id = ''s10''\<rparr>"
  "strokeObjects crossedStrokes 10 = \<lparr>points = [(100, 100, 1 / 2), (110, 110, 1 / 2)], stroke_id = ''side''\<rparr>"
  using crossedStrokes_fields(4) by simp_all

lemma crossedStrokes_hits:
  "eraseHits crossedStrokes (0, 0) 20 (retrieve (strokeQuadtree crossedStrokes) [] (searchBoundsAt (0, 0)))
     = [''s1'', ''s2'', ''s3'', ''s4'', ''s5'', ''s6'', ''s7'', ''s8'', ''s9'', ''s10'']"
proof -
  have d: "distToSegment 0 0 (-5) (-5) 5 5 < 20"
    by (simp add: distToSegment_def Let_def)
  have far: "\<not> distToSegment 0 0 100 100 110 110 < 20"
    by (simp add: distToSegment_def Let_def sqrt_less_20)
  show ?thesis
    using d far by (simp add: crossedStrokes_retrieve eraseHits_def Let_def crossedStrokes_objects)
qed

text \<open>
  At that scene every hypothesis of \<open>eraseAt_removes_every_hit_stroke\<close> holds; here
  is what it gives for the tenth stroke and the point \<open>(0, 0)\<close>.
\<close>

lemma crossedStrokes_tenth_erased:
  "onStrokeDeleted crossedStrokes \<and>
   distToSegment 0 0 (-5) (-5) 5 5 < 20 \<and>
   idsOf (strokeQuadtree crossedStrokes)
     = [''s1'', ''s2'', ''s3'', ''s4'', ''s5'', ''s6'', ''s7'', ''s8'', ''s9'', ''s10'', ''side''] \<and>
   ''s10'' \<notin> set (idsOf (strokeQuadtree (eraseAt 0 0 crossedStrokes))) \<and>
   StrokeDeleted ''s10'' \<in> set (calls (eraseAt 0 0 crossedStrokes)) \<and>
   ''s10'' \<notin> set (map (\<lambda>r. stroke_id (strokeObjects (eraseAt 0 0 crossedStrokes) r))
                     (strokes (eraseAt 0 0 crossedStrokes)))"
proof -
  have d: "distToSegment 0 0 (-5) (-5) 5 5 < 20"
    by (simp add: distToSegment_def Let_def)
  from eraseAt_removes_every_hit_stroke [OF crossedStrokes_fields(3) crossedStrokes_filed(1-3)
      crossedStrokes_fields(6) crossedStrokes_filed(4), of 0 0 0] d
  show ?thesis
    by (simp add: crossedStrokes_objects crossedStrokes_fields(1,2,6) toLocal_def identityContainer_def idsOf_def)
qed

text \<open>
  The same call removes all ten strokes that cross the centre, in the order in which they
  were drawn, and leaves the eleventh.
\<close>

lemma crossedStrokes_erased:
  "idsOf (strokeQuadtree (eraseAt 0 0 crossedStrokes)) = [''side'']"
  "map (\<lambda>r. stroke_id (strokeObjects (eraseAt 0 0 crossedStrokes) r)) (strokes (eraseAt 0 0 crossedStrokes))
     = [''side'']"
  "calls (eraseAt 0 0 crossedStrokes)
     = calls crossedStrokes @ map StrokeDeleted
         [''s1'', ''s2'', ''s3'', ''s4'', ''s5'', ''s6'', ''s7'', ''s8'', ''s9'', ''s10'']"
proof -
  let ?hits = "[''s1'', ''s2'', ''s3'', ''s4'', ''s5'', ''s6'', ''s7'', ''s8'', ''s9'', ''s10'']"
  have e: "eraseAt 0 0 crossedStrokes = foldl eraseStroke crossedStrokes ?hits"
    by (simp only: eraseAt_unfold crossedStrokes_fields(1) toLocal_def identityContainer_def
          crossedStrokes_hits Container.simps fst_conv snd_conv diff_zero div_by_1)
  note fl = eraseStrokes_fields[of crossedStrokes ?hits]
  note q = fl[THEN conjunct1]
  note o = fl[THEN conjunct2, THEN conjunct1]
  note c = fl[THEN conjunct2, THEN conjunct2, THEN conjunct2, THEN conjunct1]
  note m = fl[THEN conjunct2, THEN conjunct2, THEN conjunct2, THEN conjunct2]
  have ids: "idsOf (strokeQuadtree crossedStrokes)
      = [''s1'', ''s2'', ''s3'', ''s4'', ''s5'', ''s6'', ''s7'', ''s8'', ''s9'', ''s10'', ''side'']"
    by (simp add: idsOf_def crossedStrokes_fields(2))
  have sids: "map (\<lambda>r. stroke_id (strokeObjects crossedStrokes r)) (strokes crossedStrokes)
      = [''s1'', ''s2'', ''s3'', ''s4'', ''s5'', ''s6'', ''s7'', ''s8'', ''s9'', ''s10'', ''side'']"
    by (simp add: crossedStrokes_fields(5) crossedStrokes_objects)
  show "idsOf (strokeQuadtree (eraseAt 0 0 crossedStrokes)) = [''side'']"
    unfolding e q by (simp add: idsOf_remove ids)
  show "map (\<lambda>r. stroke_id (strokeObjects (eraseAt 0 0 crossedStrokes) r)) (strokes (eraseAt 0 0 crossedStrokes))
     = [''side'']"
    unfolding e o m sids by simp
  show "calls (eraseAt 0 0 crossedStrokes) = calls crossedStrokes @ map StrokeDeleted ?hits"
    unfolding e c using crossedStrokes_fields(6) by (simp only: if_True)
qed

text \<open>
  Ten short strokes across the centre of the world, then one stroke east of the world.  The
  eleventh insertion splits the root of the index; the far stroke is filed in the
  south-east child, the others stay at the root.
\<close>

definition elevenStrokes :: CanvasEngine where
  "elevenStrokes =
     drawStroke ''far'' (60000, 21) (60010, 21)
       (foldl (\<lambda>e sid. drawStroke sid (-5, -5) (5, 5) e) (setPersistenceCallbacks newCanvasEngine)
          [''s1'', ''s2'', ''s3'', ''s4'', ''s5'', ''s6'', ''s7'', ''s8'', ''s9'', ''s10''])"

lemma elevenStrokes_fields:
  "worldContainer elevenStrokes = identityContainer"
  "idsOf (strokeQuadtree elevenStrokes)
     = [''s1'', ''s2'', ''s3'', ''s4'', ''s5'', ''s6'', ''s7'', ''s8'', ''s9'', ''s10'', ''far'']"
  "strokeObjects elevenStrokes 10 = \<lparr>points = [(60000, 21, 1 / 2), (60010, 21, 1 / 2)], stroke_id = ''far''\<rparr>"
  "retrieve (strokeQuadtree elevenStrokes) [] (searchBoundsAt (60005, 19))
     = map (\<lambda>k. \<lparr>item_id = fst k, stroke = snd k\<rparr>)
         [(''s1'', 0), (''s2'', 1), (''s3'', 2), (''s4'', 3), (''s5'', 4), (''s6'', 5), (''s7'', 6),
          (''s8'', 7), (''s9'', 8), (''s10'', 9)]"
  "\<forall>r < 10. points (strokeObjects elevenStrokes r) = [(-5, -5, 1 / 2), (5, 5, 1 / 2)]"
  by (simp_all add: elevenStrokes_def drawStroke_fields callbacks_fields segmentBounds_def
        idsOf_def searchBoundsAt_def worldBounds_def Let_def split_def getIndex_def
        redistribute.simps intersects_def)

text \<open>
  Claim C8 fails on the code.  The eleventh stroke is indexed, and its segment passes at
  distance 2 from the point \<open>(60005, 19)\<close>, well within the radius of 20.  But the
  stroke lies outside the world bounds of the index, and the search rectangle around the
  point straddles the horizontal centre line of the world and overlaps the bounds of no
  child of the root; so the stroke is no candidate, and \<^verbatim>\<open>eraseAt\<close> changes nothing:
  the stroke stays in the scene and in the index, and nothing is reported.
\<close>

theorem eraseAt_misses_stroke_outside_world:
  "''far'' \<in> set (idsOf (strokeQuadtree elevenStrokes)) \<and>
   points (strokeObjects elevenStrokes 10) = [(60000, 21, 1 / 2), (60010, 21, 1 / 2)] \<and>
   distToSegment 60005 19 60000 21 60010 21 < 20 \<and>
   eraseAt 60005 19 elevenStrokes = elevenStrokes"
proof -
  have d: "distToSegment 60005 19 60000 21 60010 21 < 20"
    by (simp add: distToSegment_def Let_def sqrt_less_20)
  have far: "\<not> distToSegment 60005 19 (-5) (-5) 5 5 < 20"
    by (simp add: distToSegment_def Let_def sqrt_less_20)
  have "eraseHits elevenStrokes (60005, 19) 20
          (retrieve (strokeQuadtree elevenStrokes) [] (searchBoundsAt (60005, 19))) = []"
    using far elevenStrokes_fields(5)
    by (simp add: elevenStrokes_fields(4) eraseHits_def Let_def)
  then have "eraseAt 60005 19 elevenStrokes = elevenStrokes"
    by (simp add: eraseAt_unfold elevenStrokes_fields(1) toLocal_def identityContainer_def)
  with d show ?thesis by (simp add: elevenStrokes_fields)
qed

end
